theory Spec2Isabelle
  imports Main "HOL-Library.Multiset"
begin

section \<open>Striking-distance keyword report: the crawl, match and score pipeline of app.py\<close>

text \<open>
  The development embeds the report generation of \<^verbatim>\<open>src/app.py\<close> (function
  \<^verbatim>\<open>main\<close>, lines 345 to 468, and the helpers it calls). A pandas data frame is
  the list of its rows in index order. Text is ASCII: a Python string is a
  \<^typ>\<open>string\<close>, and \<^verbatim>\<open>str.lower\<close> maps the letters A to Z only.
\<close>

subsection \<open>Strings\<close>

definition lower_char :: "char \<Rightarrow> char" where
  "lower_char c =
     (case map_of (zip ''ABCDEFGHIJKLMNOPQRSTUVWXYZ'' ''abcdefghijklmnopqrstuvwxyz'') c of
        None \<Rightarrow> c
      | Some l \<Rightarrow> l)"

definition lower :: "string \<Rightarrow> string" where
  "lower s = map lower_char s"

text \<open>\<^verbatim>\<open>str.isspace\<close> on the ASCII range: tab to carriage return, the four
  separators 28 to 31, and the blank.\<close>

definition is_space :: "char \<Rightarrow> bool" where
  "is_space c =
     (c \<in> set [CHR 0x09, CHR 0x0A, CHR 0x0B, CHR 0x0C, CHR 0x0D,
               CHR 0x1C, CHR 0x1D, CHR 0x1E, CHR 0x1F, CHR 0x20])"

definition strip :: "string \<Rightarrow> string" where
  "strip s = rev (dropWhile is_space (rev (dropWhile is_space s)))"

text \<open>\<^verbatim>\<open>s.split(sep)\<close> for a separator of one character: the pieces between
  the separators, never an empty list.\<close>

fun split_on :: "char \<Rightarrow> string \<Rightarrow> string list" where
  "split_on sep [] = [[]]"
| "split_on sep (c # cs) =
     (if c = sep then [] # split_on sep cs
      else (case split_on sep cs of
              [] \<Rightarrow> [[c]]
            | w # ws \<Rightarrow> (c # w) # ws))"

text \<open>\<^verbatim>\<open>sep.join(parts)\<close>.\<close>

fun join :: "string \<Rightarrow> string list \<Rightarrow> string" where
  "join sep [] = []"
| "join sep [x] = x"
| "join sep (x # y # ys) = x @ sep @ join sep (y # ys)"

text \<open>\<^verbatim>\<open>text.startswith(needle)\<close> and \<^verbatim>\<open>needle in text\<close>, by scanning the
  positions of the text from the left.\<close>

fun starts_with :: "string \<Rightarrow> string \<Rightarrow> bool" where
  "starts_with [] text = True"
| "starts_with (n # ns) [] = False"
| "starts_with (n # ns) (t # ts) = (n = t \<and> starts_with ns ts)"

fun py_in :: "string \<Rightarrow> string \<Rightarrow> bool" where
  "py_in needle [] = (needle = [])"
| "py_in needle (t # ts) = (starts_with needle (t # ts) \<or> py_in needle ts)"

subsection \<open>Rows\<close>

text \<open>
  A keyword row holds the columns the pipeline reads. The columns
  \<^verbatim>\<open>clicks\<close> and \<^verbatim>\<open>ctr\<close> are carried along unread and are left out. An
  \<^verbatim>\<open>impressions\<close> cell is \<open>None\<close> when the frame has no such column or the
  cell is NaN; whether the column exists is a property of the frame and is passed
  beside it. Rows are validated on the way in: URL and keyword are strings, and
  positions and impressions are integers, as in the sample data of the application.
\<close>

record keyword_row =
  url :: string
  keyword :: string
  position :: int
  impressions :: "int option"

text \<open>The dictionary \<^verbatim>\<open>crawl_url\<close> returns for one page.\<close>

record page =
  page_url :: string
  title :: string
  h1 :: string
  content :: string
  status :: string

text \<open>A row of \<^verbatim>\<open>results\<close>: the keyword row updated with the presence columns.\<close>

record matched_row = keyword_row +
  in_title :: bool
  in_h1 :: bool
  in_content :: bool
  page_title :: string
  optimization_score :: nat

text \<open>A row of the frame \<^verbatim>\<open>calculate_striking_distance_opportunities\<close> returns.\<close>

record opportunity =
  opp_url :: string
  opp_keyword :: string
  opp_position :: int
  opp_score :: int
  opp_recommendations :: string

text \<open>A row of the merged striking-distance frame; a left row the merge finds no
  partner for has NaN in both new columns.\<close>

record scored_row = matched_row +
  opportunity_score :: "int option"
  recommendations :: "string option"

subsection \<open>Keyword presence (lines 133 to 137)\<close>

definition check_keyword_presence :: "string \<Rightarrow> string \<Rightarrow> bool" where
  "check_keyword_presence kw text =
     (if text = [] \<or> kw = [] then False else py_in (lower kw) (lower text))"

subsection \<open>Opportunity scoring (lines 139 to 183)\<close>

text \<open>A rule that fires: \<^verbatim>\<open>score += points\<close> and
  \<^verbatim>\<open>recommendations.append(recommendation)\<close>, on the pair of both.\<close>

definition fire :: "int \<Rightarrow> string \<Rightarrow> int \<times> string list \<Rightarrow> int \<times> string list" where
  "fire points recommendation acc = (fst acc + points, snd acc @ [recommendation])"

text \<open>The body of the loop for one row: the pair of \<^verbatim>\<open>score\<close> and
  \<^verbatim>\<open>recommendations\<close>, taken through the rules in the order of the source.\<close>

definition score_row :: "'a matched_row_scheme \<Rightarrow> int \<times> string list" where
  "score_row row =
     (let acc = (0, []);
          acc = (if 3 \<le> position row \<and> position row \<le> 5
                   then fire 30 ''Very close to top 3 - high priority'' acc
                 else if 6 \<le> position row \<and> position row \<le> 10
                   then fire 20 ''On page 1 - good opportunity'' acc
                 else if 11 \<le> position row \<and> position row \<le> 20
                   then fire 10 ''On page 2 - worth optimizing'' acc
                 else acc);
          acc = (if \<not> in_title row then fire 15 ''Add keyword to title tag'' acc else acc);
          acc = (if \<not> in_h1 row then fire 10 ''Add keyword to H1 tag'' acc else acc);
          acc = (if \<not> in_content row
                   then fire 5 ''Include keyword naturally in content'' acc else acc);
          acc = (if (case impressions row of None \<Rightarrow> False | Some n \<Rightarrow> 1000 < n)
                   then fire 10 ''High search volume keyword'' acc else acc)
      in acc)"

definition opportunity_of :: "'a matched_row_scheme \<Rightarrow> opportunity" where
  "opportunity_of row =
     \<lparr>opp_url = url row, opp_keyword = keyword row, opp_position = position row,
      opp_score = fst (score_row row),
      opp_recommendations = join '' | '' (snd (score_row row))\<rparr>"

definition calculate_striking_distance_opportunities ::
    "'a matched_row_scheme list \<Rightarrow> opportunity list" where
  "calculate_striking_distance_opportunities df = map opportunity_of df"

subsection \<open>Filtering (lines 349 to 364)\<close>

definition position_filter :: "int \<times> int \<Rightarrow> keyword_row list \<Rightarrow> keyword_row list" where
  "position_filter position_range df =
     filter (\<lambda>row. fst position_range \<le> position row \<and> position row \<le> snd position_range) df"

text \<open>The comparison of a NaN cell with the threshold is false, so the row goes.\<close>

definition impressions_filter :: "bool \<Rightarrow> int \<Rightarrow> keyword_row list \<Rightarrow> keyword_row list" where
  "impressions_filter has_impressions min_impressions filtered_df =
     (if has_impressions
      then filter (\<lambda>row. case impressions row of None \<Rightarrow> False
                                                | Some n \<Rightarrow> min_impressions \<le> n) filtered_df
      else filtered_df)"

definition blocklist_terms :: "string \<Rightarrow> string list" where
  "blocklist_terms blocklist_input =
     map (\<lambda>trm. lower (strip trm))
       (filter (\<lambda>trm. strip trm \<noteq> []) (split_on (CHR 0x0A) blocklist_input))"

text \<open>
  \<^verbatim>\<open>Series.str.contains(term, na=False)\<close> hands the term to Python's
  \<^verbatim>\<open>re\<close> as a pattern (\<^verbatim>\<open>regex=True\<close> is the default). The pattern
  engine is the library's and is a parameter here: for a term, \<open>None\<close> when
  \<^verbatim>\<open>re.compile\<close> raises \<^verbatim>\<open>re.error\<close>, and otherwise the test whether the
  pattern is found somewhere in a string.
\<close>

type_synonym regex = "string \<Rightarrow> (string \<Rightarrow> bool) option"

text \<open>The mask \<^verbatim>\<open>filtered_df['keyword'].str.lower().str.contains(term, na=False)\<close>
  for one row, given the compiled term.\<close>

definition str_contains :: "(string \<Rightarrow> bool) \<Rightarrow> keyword_row \<Rightarrow> bool" where
  "str_contains search row = search (lower (keyword row))"

text \<open>The loop over the terms, on the pair of \<^verbatim>\<open>blocklist_removed\<close> and
  \<^verbatim>\<open>filtered_df\<close>. A term that does not compile raises at line 362 and ends the
  handler: the result is \<open>None\<close>.\<close>

fun apply_blocklist ::
    "regex \<Rightarrow> string list \<Rightarrow> keyword_row list \<times> keyword_row list
       \<Rightarrow> (keyword_row list \<times> keyword_row list) option" where
  "apply_blocklist re [] (blocklist_removed, filtered_df) = Some (blocklist_removed, filtered_df)"
| "apply_blocklist re (trm # blocklist) (blocklist_removed, filtered_df) =
     (case re trm of
        None \<Rightarrow> None
      | Some search \<Rightarrow>
          (let removed = filter (str_contains search) filtered_df
           in apply_blocklist re blocklist
                (blocklist_removed @ removed,
                 filter (\<lambda>row. \<not> str_contains search row) filtered_df)))"

text \<open>Step 1 of the report: the pair of \<^verbatim>\<open>blocklist_removed\<close> and
  \<^verbatim>\<open>filtered_df\<close> at line 365, or \<open>None\<close> when a term raised.\<close>

definition filter_keywords ::
    "regex \<Rightarrow> int \<times> int \<Rightarrow> int \<Rightarrow> string \<Rightarrow> bool \<Rightarrow> keyword_row list
       \<Rightarrow> (keyword_row list \<times> keyword_row list) option" where
  "filter_keywords re position_range min_impressions blocklist_input has_impressions df =
     (let filtered_df = position_filter position_range df;
          filtered_df = impressions_filter has_impressions min_impressions filtered_df
      in if blocklist_input \<noteq> []
         then apply_blocklist re (blocklist_terms blocklist_input) ([], filtered_df)
         else Some ([], filtered_df))"

subsection \<open>Crawling (lines 83 to 131 and 370 to 405)\<close>

text \<open>\<^verbatim>\<open>Series.unique()\<close>: the distinct values in order of first appearance.\<close>

fun unique :: "'a list \<Rightarrow> 'a list" where
  "unique [] = []"
| "unique (x # xs) = x # unique (filter (\<lambda>y. y \<noteq> x) xs)"

definition unique_urls :: "nat \<Rightarrow> keyword_row list \<Rightarrow> string list" where
  "unique_urls max_urls filtered_df = take max_urls (unique (map url filtered_df))"

definition sample_page :: "string \<Rightarrow> page" where
  "sample_page u =
     \<lparr>page_url = u,
      title = ''Sample Title for '' @ last (split_on (CHR ''/'') u),
      h1 = ''Sample H1 Header for '' @ last (split_on (CHR ''/'') u),
      content = ''This is sample content for '' @ u @ ''. It contains various keywords and text.'',
      status = ''success''\<rparr>"

definition sample_crawl :: "string list \<Rightarrow> (string \<rightharpoonup> page)" where
  "sample_crawl urls = foldl (\<lambda>crawl_results u. crawl_results(u \<mapsto> sample_page u)) Map.empty urls"

text \<open>
  What the body of the \<^verbatim>\<open>try\<close> in \<^verbatim>\<open>crawl_url\<close> does for a URL is the
  network's and the parser's business: it reaches line 116 with a title, the
  joined H1 text and the body text, or it raises a \<^verbatim>\<open>RequestException\<close>, or
  it raises something else.
\<close>

datatype response =
    Extracted string string string
  | RequestException string
  | OtherException string

text \<open>\<^verbatim>\<open>crawl_url\<close>: \<open>Inr\<close> is the dictionary returned, \<open>Inl\<close> the message
  of an exception that leaves the function.\<close>

definition crawl_url :: "(string \<Rightarrow> response) \<Rightarrow> string \<Rightarrow> string + page" where
  "crawl_url web u =
     (case web u of
        Extracted t h c \<Rightarrow>
          Inr \<lparr>page_url = u, title = t, h1 = h, content = take 5000 c, status = ''success''\<rparr>
      | RequestException e \<Rightarrow>
          Inr \<lparr>page_url = u, title = [], h1 = [], content = [], status = ''error: '' @ e\<rparr>
      | OtherException e \<Rightarrow> Inl e)"

text \<open>The body of the loop over \<^verbatim>\<open>as_completed\<close> for one finished future.\<close>

definition collect_result ::
    "(string \<Rightarrow> response) \<Rightarrow> (string \<rightharpoonup> page) \<Rightarrow> string \<Rightarrow> (string \<rightharpoonup> page)" where
  "collect_result web crawl_results u =
     (case crawl_url web u of
        Inr result \<Rightarrow> crawl_results(u \<mapsto> result)
      | Inl e \<Rightarrow>
          crawl_results(u \<mapsto>
            \<lparr>page_url = u, title = [], h1 = [], content = [], status = ''error: '' @ e\<rparr>))"

text \<open>The thread pool: one future per URL, collected in the order
  \<open>completed\<close> in which they finish.\<close>

definition crawl_all :: "(string \<Rightarrow> response) \<Rightarrow> string list \<Rightarrow> (string \<rightharpoonup> page)" where
  "crawl_all web completed = foldl (collect_result web) Map.empty completed"

subsection \<open>Matching and categorising (lines 411 to 458)\<close>

definition match_row :: "keyword_row \<Rightarrow> page \<Rightarrow> matched_row" where
  "match_row row crawl_data =
     (let it = check_keyword_presence (keyword row) (title crawl_data);
          ih = check_keyword_presence (keyword row) (h1 crawl_data);
          ic = check_keyword_presence (keyword row) (content crawl_data)
      in \<lparr>url = url row, keyword = keyword row, position = position row,
          impressions = impressions row,
          in_title = it, in_h1 = ih, in_content = ic,
          page_title = take 100 (title crawl_data),
          optimization_score = sum_list (map of_bool [it, ih, ic])\<rparr>)"

text \<open>The body of the loop over the filtered rows, on the pair of \<^verbatim>\<open>results\<close>
  and \<^verbatim>\<open>urls_not_found\<close>.\<close>

definition check_row ::
    "(string \<rightharpoonup> page) \<Rightarrow> matched_row list \<times> (string \<times> string) list \<Rightarrow> keyword_row
       \<Rightarrow> matched_row list \<times> (string \<times> string) list" where
  "check_row crawl_results acc row =
     (case crawl_results (url row) of
        None \<Rightarrow> (fst acc, snd acc @ [(url row, keyword row)])
      | Some crawl_data \<Rightarrow>
          if status crawl_data = ''success''
          then (fst acc @ [match_row row crawl_data], snd acc)
          else (fst acc, snd acc @ [(url row, keyword row)]))"

definition check_rows ::
    "(string \<rightharpoonup> page) \<Rightarrow> keyword_row list \<Rightarrow> matched_row list \<times> (string \<times> string) list" where
  "check_rows crawl_results filtered_df = foldl (check_row crawl_results) ([], []) filtered_df"

definition select_all_checks_passed :: "matched_row list \<Rightarrow> matched_row list" where
  "select_all_checks_passed results_df =
     (if results_df \<noteq> []
      then filter (\<lambda>r. in_title r \<and> in_h1 r \<and> in_content r) results_df
      else [])"

text \<open>
  \<^verbatim>\<open>sort_values(col)\<close> with the default sort kind: the rows in ascending order of
  the key. The default kind is not a stable sort, so the order in which rows of equal
  key leave it is the library's business and is a parameter here. For a key column,
  \<open>kind\<close> gives every place of the column a rank; rows of equal key leave the
  sort by ascending rank of their places, and in the order of their places where the
  ranks are equal too. The kind that ranks all places alike is a stable sort
  (\<open>sort_values_stable\<close>), and every rearrangement with ascending keys is the
  outcome under some kind (\<open>sort_values_any_order\<close>).
\<close>

type_synonym sort_kind = "int list \<Rightarrow> nat \<Rightarrow> nat"

definition sort_values :: "sort_kind \<Rightarrow> ('a \<Rightarrow> int) \<Rightarrow> 'a list \<Rightarrow> 'a list" where
  "sort_values kind col df =
     map snd
       (sort_key (col \<circ> snd)
          (sort_key (kind (map col df) \<circ> fst) (enumerate 0 df)))"

definition select_striking_distance :: "sort_kind \<Rightarrow> matched_row list \<Rightarrow> matched_row list" where
  "select_striking_distance kind results_df =
     (if results_df \<noteq> []
      then sort_values kind position
             (filter (\<lambda>r. \<not> in_title r \<or> \<not> in_h1 r \<or> \<not> in_content r) results_df)
      else [])"

subsection \<open>Attaching the opportunities (lines 460 to 468)\<close>

definition with_opportunity :: "matched_row \<Rightarrow> int option \<Rightarrow> string option \<Rightarrow> scored_row" where
  "with_opportunity l s r =
     \<lparr>url = url l, keyword = keyword l, position = position l, impressions = impressions l,
      in_title = in_title l, in_h1 = in_h1 l, in_content = in_content l,
      page_title = page_title l, optimization_score = optimization_score l,
      opportunity_score = s, recommendations = r\<rparr>"

text \<open>\<^verbatim>\<open>left.merge(right, on=['url', 'keyword'], how='left')\<close>: every left row, in
  order, once with each right row of the same key, in the order of the right frame.\<close>

definition merge_left :: "matched_row list \<Rightarrow> opportunity list \<Rightarrow> scored_row list" where
  "merge_left left right =
     concat (map (\<lambda>l.
        (case filter (\<lambda>r. opp_url r = url l \<and> opp_keyword r = keyword l) right of
           [] \<Rightarrow> [with_opportunity l None None]
         | m # ms \<Rightarrow>
             map (\<lambda>r. with_opportunity l (Some (opp_score r)) (Some (opp_recommendations r)))
               (m # ms))) left)"

text \<open>
  \<^verbatim>\<open>sort_values(col, ascending=False)\<close>: pandas sorts the rows that have a value
  by reversing them, sorting ascending and reversing the outcome, and puts the NaN
  rows last.
\<close>

definition sort_values_desc :: "sort_kind \<Rightarrow> ('a \<Rightarrow> int option) \<Rightarrow> 'a list \<Rightarrow> 'a list" where
  "sort_values_desc kind col df =
     rev (sort_values kind (\<lambda>row. case col row of None \<Rightarrow> 0 | Some v \<Rightarrow> v)
            (rev (filter (\<lambda>row. col row \<noteq> None) df)))
     @ filter (\<lambda>row. col row = None) df"

definition attach_opportunities :: "sort_kind \<Rightarrow> matched_row list \<Rightarrow> scored_row list" where
  "attach_opportunities kind striking =
     (if striking \<noteq> []
      then (let opportunities_df = calculate_striking_distance_opportunities striking;
                merged = merge_left striking opportunities_df
            in sort_values_desc kind opportunity_score merged)
      else [])"

subsection \<open>The report (lines 345 to 476)\<close>

datatype crawl_option = Crawl_URLs_automatically | Use_sample_content

record settings =
  crawl_option :: crawl_option
  max_urls :: nat
  position_range :: "int \<times> int"
  blocklist_input :: string
  min_impressions :: int

record report =
  striking_distance :: "scored_row list"
  all_checks_passed :: "matched_row list"
  blocklist_removed :: "keyword_row list"
  urls_not_found :: "(string \<times> string) list"

text \<open>Steps 3 and 4 on a crawl map and the filtered rows.\<close>

definition analyse ::
    "sort_kind \<Rightarrow> (string \<rightharpoonup> page) \<Rightarrow> keyword_row list
       \<Rightarrow> scored_row list \<times> matched_row list \<times> (string \<times> string) list" where
  "analyse kind crawl_results filtered_df =
     (let (results, not_found) = check_rows crawl_results filtered_df
      in (attach_opportunities kind (select_striking_distance kind results),
          select_all_checks_passed results,
          not_found))"

definition crawl ::
    "crawl_option \<Rightarrow> (string \<Rightarrow> response) \<Rightarrow> (string list \<Rightarrow> string list) \<Rightarrow> string list
       \<Rightarrow> (string \<rightharpoonup> page)" where
  "crawl option web as_completed urls =
     (if option = Use_sample_content then sample_crawl urls
      else crawl_all web (as_completed urls))"

text \<open>Steps 2 to 4: the report from the outcome of the filters.\<close>

definition report_of ::
    "settings \<Rightarrow> sort_kind \<Rightarrow> (string \<Rightarrow> response) \<Rightarrow> (string list \<Rightarrow> string list)
       \<Rightarrow> keyword_row list \<Rightarrow> keyword_row list \<Rightarrow> report" where
  "report_of cfg kind web as_completed removed filtered_df =
     (let urls = unique_urls (max_urls cfg) filtered_df;
          crawl_results = crawl (crawl_option cfg) web as_completed urls;
          (striking, passed, not_found) = analyse kind crawl_results filtered_df
      in \<lparr>striking_distance = striking, all_checks_passed = passed,
          blocklist_removed = removed, urls_not_found = not_found\<rparr>)"

text \<open>
  The whole button handler: the report, or \<open>None\<close> when a blocklist term raised.
  \<open>re\<close> is the pattern engine, \<open>kind\<close> the sort kind, \<open>web\<close> what fetching
  does, \<open>as_completed\<close> the order in which the futures of the submitted URLs
  finish, \<open>has_impressions\<close> whether the uploaded frame has the column.
\<close>

definition generate_report ::
    "settings \<Rightarrow> regex \<Rightarrow> sort_kind \<Rightarrow> (string \<Rightarrow> response) \<Rightarrow> (string list \<Rightarrow> string list)
       \<Rightarrow> bool \<Rightarrow> keyword_row list \<Rightarrow> report option" where
  "generate_report cfg re kind web as_completed has_impressions df =
     (case filter_keywords re (position_range cfg) (min_impressions cfg) (blocklist_input cfg)
             has_impressions df of
        None \<Rightarrow> None
      | Some (removed, filtered_df) \<Rightarrow>
          Some (report_of cfg kind web as_completed removed filtered_df))"

subsection \<open>Notions of the specification\<close>

text \<open>A term matches a row: it compiles and is found in the lowercased keyword.\<close>

definition keyword_hit :: "regex \<Rightarrow> string \<Rightarrow> keyword_row \<Rightarrow> bool" where
  "keyword_hit re trm row =
     (case re trm of None \<Rightarrow> False | Some search \<Rightarrow> str_contains search row)"

text \<open>The place in the blocklist of the first term that matches a row; the length
  of the blocklist when none does.\<close>

definition first_hit :: "regex \<Rightarrow> string list \<Rightarrow> keyword_row \<Rightarrow> nat" where
  "first_hit re blocklist row =
     length (takeWhile (\<lambda>trm. \<not> keyword_hit re trm row) blocklist)"

text \<open>The values of a list at the places where a value occurs for the first time,
  in the order of the places: the distinct values in order of first appearance.\<close>

definition first_appearances :: "'a list \<Rightarrow> 'a list" where
  "first_appearances xs =
     map (\<lambda>i. xs ! i) (filter (\<lambda>i. xs ! i \<notin> set (take i xs)) [0..<length xs])"

text \<open>The URL is in the crawl map with status \<^verbatim>\<open>success\<close> (the test of line 418).\<close>

definition crawled_ok :: "(string \<rightharpoonup> page) \<Rightarrow> string \<Rightarrow> bool" where
  "crawled_ok crawl_results u =
     (case crawl_results u of
        None \<Rightarrow> False
      | Some crawl_data \<Rightarrow> status crawl_data = ''success'')"

text \<open>The keyword row an output row was made from: its input columns.\<close>

definition base_row :: "'a keyword_row_scheme \<Rightarrow> keyword_row" where
  "base_row r =
     \<lparr>url = url r, keyword = keyword r, position = position r, impressions = impressions r\<rparr>"

text \<open>The page that the crawl stores for a URL.\<close>

definition stored_page :: "(string \<Rightarrow> response) \<Rightarrow> string \<Rightarrow> page" where
  "stored_page web u =
     (case web u of
        Extracted t h c \<Rightarrow>
          \<lparr>page_url = u, title = t, h1 = h, content = take 5000 c, status = ''success''\<rparr>
      | RequestException e \<Rightarrow>
          \<lparr>page_url = u, title = [], h1 = [], content = [], status = ''error: '' @ e\<rparr>
      | OtherException e \<Rightarrow>
          \<lparr>page_url = u, title = [], h1 = [], content = [], status = ''error: '' @ e\<rparr>)"

text \<open>The opportunity score of a merged row as a number, for comparing rows.\<close>

definition score_value :: "scored_row \<Rightarrow> int" where
  "score_value r = (case opportunity_score r of None \<Rightarrow> 0 | Some v \<Rightarrow> v)"

text \<open>The row that the loop of line 414 appends to \<^verbatim>\<open>results\<close> for a keyword
  row, if it appends one.\<close>

definition matched_of :: "(string \<rightharpoonup> page) \<Rightarrow> keyword_row \<Rightarrow> matched_row option" where
  "matched_of crawl_results row =
     (case crawl_results (url row) of
        None \<Rightarrow> None
      | Some crawl_data \<Rightarrow>
          if status crawl_data = ''success'' then Some (match_row row crawl_data) else None)"

text \<open>The rows of the striking-distance frame that share the merge key of a row.\<close>

definition partners :: "matched_row list \<Rightarrow> matched_row \<Rightarrow> matched_row list" where
  "partners striking l = filter (\<lambda>l'. url l' = url l \<and> keyword l' = keyword l) striking"

subsection \<open>Example inputs\<close>

definition plain_row :: keyword_row where
  "plain_row = \<lparr>url = ''/p1'', keyword = ''running shoes'', position = 4,
                 impressions = Some 1200\<rparr>"

definition near_me_row :: keyword_row where
  "near_me_row = \<lparr>url = ''/p2'', keyword = ''Cheap Shoes Near Me'', position = 7,
                   impressions = Some 40\<rparr>"

definition far_row :: keyword_row where
  "far_row = \<lparr>url = ''/p3'', keyword = ''shoes near me'', position = 25,
               impressions = Some 900\<rparr>"

definition shoes_row :: keyword_row where
  "shoes_row = \<lparr>url = ''/p1'', keyword = ''Shoes'', position = 9, impressions = None\<rparr>"

definition second_plain_row :: keyword_row where
  "second_plain_row = \<lparr>url = ''/p1'', keyword = ''running shoes'', position = 7,
                        impressions = Some 1200\<rparr>"

definition trail_row :: keyword_row where
  "trail_row = \<lparr>url = ''https://example.com/a'', keyword = ''trail shoes'', position = 12,
                 impressions = Some 100\<rparr>"

definition road_row :: keyword_row where
  "road_row = \<lparr>url = ''https://example.com/b'', keyword = ''road shoes'', position = 11,
                impressions = Some 100\<rparr>"

definition third_row :: keyword_row where
  "third_row = \<lparr>url = ''/p3'', keyword = ''trail shoes'', position = 5,
                 impressions = Some 50\<rparr>"

definition nike_row :: keyword_row where
  "nike_row = \<lparr>url = ''/p1'', keyword = ''Nike (Official) Store [US]'', position = 6,
                impressions = Some 300\<rparr>"

text \<open>A pattern engine that finds every term where it occurs as a substring, as
  Python's does for a term without a character that patterns give a meaning to.\<close>

definition literal_re :: regex where
  "literal_re trm = Some (py_in trm)"

text \<open>
  Python's reading of the two terms of the example: in \<^verbatim>\<open>nike (official)\<close> the
  parentheses form a group, so the pattern is found where \<^verbatim>\<open>nike official\<close>
  occurs; in \<^verbatim>\<open>store [us]\<close> the brackets form a character class, so the pattern
  is found where \<^verbatim>\<open>store u\<close> or \<^verbatim>\<open>store s\<close> occurs. Other terms are taken
  as they are written.
\<close>

definition nike_re :: regex where
  "nike_re trm =
     (if trm = ''nike (official)'' then Some (py_in ''nike official'')
      else if trm = ''store [us]'' then Some (\<lambda>s. py_in ''store u'' s \<or> py_in ''store s'' s)
      else Some (py_in trm))"

text \<open>The blocklist of the example as typed into the text area, one term per line.\<close>

definition nike_blocklist :: string where
  "nike_blocklist = ''Nike (Official)'' @ [CHR 0x0A] @ ''Store [US]''"

text \<open>The sort kind that ranks all places alike.\<close>

definition stable :: sort_kind where
  "stable keys i = 0"

text \<open>A web on which every request fails, and one with a page, a refused
  connection and a parser fault.\<close>

definition no_web :: "string \<Rightarrow> response" where
  "no_web u = RequestException ''unreachable''"

definition small_web :: "string \<Rightarrow> response" where
  "small_web u =
     (if u = ''/p1'' then Extracted ''Running Shoes Shop'' ''Shoes'' ''All our running shoes''
      else if u = ''/p2'' then RequestException ''refused''
      else OtherException ''bad markup'')"

text \<open>The settings of the sidebar as it opens, with the sample content chosen.\<close>

definition sample_settings :: settings where
  "sample_settings =
     \<lparr>crawl_option = Use_sample_content, max_urls = 50, position_range = (3, 20),
      blocklist_input = [], min_impressions = 10\<rparr>"

text \<open>The frame that the button \<^verbatim>\<open>Load Sample Data\<close> builds (lines 238 to 254).\<close>

definition sample_data :: "keyword_row list" where
  "sample_data =
     map (\<lambda>(((u, k), i), p). \<lparr>url = u, keyword = k, position = p, impressions = Some i\<rparr>)
       (zip (concat (replicate 4 (zip (zip
               [''https://example.com/page1'', ''https://example.com/page2'',
                ''https://example.com/page3'', ''https://example.com/page4'',
                ''https://example.com/page5'']
               [''best running shoes'', ''running shoes review'', ''marathon training tips'',
                ''beginner running guide'', ''running shoe brands''])
               [1200, 800, 500, 300, 1500])))
            [4, 7, 12, 15, 8, 5, 9, 18, 3, 11, 6, 14, 19, 4, 10, 13, 16, 5, 9, 20])"

section \<open>Keyword presence\<close>

lemma starts_with_iff: "starts_with needle hay = (\<exists>suf. hay = needle @ suf)"
  by (induction needle hay rule: starts_with.induct) auto

lemma py_in_iff: "py_in needle hay = (\<exists>pre suf. hay = pre @ needle @ suf)"
proof (induction hay)
  case Nil
  then show ?case by auto
next
  case (Cons a hay)
  show ?case
  proof
    assume "py_in needle (a # hay)"
    then consider "starts_with needle (a # hay)" | "py_in needle hay"
      by auto
    then show "\<exists>pre suf. a # hay = pre @ needle @ suf"
    proof cases
      case 1
      then obtain suf where "a # hay = needle @ suf"
        by (auto simp: starts_with_iff)
      then have "a # hay = [] @ needle @ suf" by simp
      then show ?thesis by blast
    next
      case 2
      with Cons obtain pre suf where "hay = pre @ needle @ suf" by auto
      then have "a # hay = (a # pre) @ needle @ suf" by simp
      then show ?thesis by blast
    qed
  next
    assume "\<exists>pre suf. a # hay = pre @ needle @ suf"
    then obtain pre suf where e: "a # hay = pre @ needle @ suf" by blast
    show "py_in needle (a # hay)"
    proof (cases pre)
      case Nil
      with e have "starts_with needle (a # hay)"
        by (auto simp: starts_with_iff)
      then show ?thesis by simp
    next
      case (Cons b pre')
      with e have "hay = pre' @ needle @ suf" by simp
      with Cons.IH have "py_in needle hay" by blast
      then show ?thesis by simp
    qed
  qed
qed

text \<open>
  C8. On any two strings the presence check returns a truth value (it has no failing
  branch): false when the keyword or the text is empty, and otherwise true exactly
  when the lowercased keyword occurs in the lowercased text as a substring.
\<close>

theorem check_keyword_presence_substring:
  "check_keyword_presence kw text =
     (kw \<noteq> [] \<and> text \<noteq> [] \<and> (\<exists>pre suf. lower text = pre @ lower kw @ suf))"
  by (auto simp: check_keyword_presence_def py_in_iff)

theorem check_keyword_presence_substring_witness:
  "check_keyword_presence ''Shoes'' ''Best running SHOES here'' \<and>
   lower ''Best running SHOES here'' = ''best running '' @ lower ''Shoes'' @ '' here'' \<and>
   \<not> check_keyword_presence [] ''Best running SHOES here'' \<and>
   \<not> check_keyword_presence ''Shoes'' []"
proof -
  have l: "lower ''Best running SHOES here'' = ''best running '' @ lower ''Shoes'' @ '' here''"
    by (simp add: lower_def lower_char_def)
  then have "\<exists>pre suf. lower ''Best running SHOES here'' = pre @ lower ''Shoes'' @ suf"
    by blast
  with check_keyword_presence_substring [of "''Shoes''" "''Best running SHOES here''"]
  have "check_keyword_presence ''Shoes'' ''Best running SHOES here''"
    by simp
  with l show ?thesis
    using check_keyword_presence_substring [of "[]" "''Best running SHOES here''"]
      check_keyword_presence_substring [of "''Shoes''" "[]"]
    by simp
qed

section \<open>Opportunity scoring\<close>

text \<open>
  C4. For position 4, keyword absent from title and H1, present in the content, and
  1200 impressions, the scorer gives 65 = 30 + 15 + 10 + 10 and the four
  recommendations of the band 3 to 5, the title, the H1 and the search volume, in
  that order; the row of the returned frame carries them joined by a bar.
\<close>

theorem score_row_example:
  "score_row \<lparr>url = u, keyword = k, position = 4, impressions = Some 1200,
              in_title = False, in_h1 = False, in_content = True,
              page_title = pt, optimization_score = n\<rparr>
     = (30 + 15 + 10 + 10,
        [''Very close to top 3 - high priority'', ''Add keyword to title tag'',
         ''Add keyword to H1 tag'', ''High search volume keyword''])
   \<and> (30 + 15 + 10 + 10 = (65::int))
   \<and> calculate_striking_distance_opportunities
        [\<lparr>url = u, keyword = k, position = 4, impressions = Some 1200,
          in_title = False, in_h1 = False, in_content = True,
          page_title = pt, optimization_score = n\<rparr>]
     = [\<lparr>opp_url = u, opp_keyword = k, opp_position = 4, opp_score = 65,
         opp_recommendations =
           ''Very close to top 3 - high priority | Add keyword to title tag | Add keyword to H1 tag | High search volume keyword''\<rparr>]"
  by (simp add: score_row_def fire_def calculate_striking_distance_opportunities_def
        opportunity_of_def)

lemma fst_fire: "fst (fire p r acc) = fst acc + p"
  by (simp add: fire_def)

lemma fst_if: "fst (if c then a else b) = (if c then fst a else fst b)"
  by simp

text \<open>The score is the sum of what the rules contribute.\<close>

lemma score_row_fst:
  "fst (score_row row) =
     (if 3 \<le> position row \<and> position row \<le> 5 then 30
      else if 6 \<le> position row \<and> position row \<le> 10 then 20
      else if 11 \<le> position row \<and> position row \<le> 20 then 10 else 0)
     + (if in_title row then 0 else 15) + (if in_h1 row then 0 else 10)
     + (if in_content row then 0 else 5)
     + (if (case impressions row of None \<Rightarrow> False | Some n \<Rightarrow> 1000 < n) then 10 else 0)"
proof -
  have "fst (score_row row) =
     (if (case impressions row of None \<Rightarrow> False | Some n \<Rightarrow> 1000 < n) then 10 else 0)
     + ((if in_content row then 0 else 5)
     + ((if in_h1 row then 0 else 10)
     + ((if in_title row then 0 else 15)
     + (if 3 \<le> position row \<and> position row \<le> 5 then 30
        else if 6 \<le> position row \<and> position row \<le> 10 then 20
        else if 11 \<le> position row \<and> position row \<le> 20 then 10 else 0))))"
    unfolding score_row_def Let_def
    apply (simp only: fst_if fst_fire fst_conv)
    apply simp
    done
  then show ?thesis by simp
qed

text \<open>
  C7. With everything else in the row fixed, the score of the row with a presence
  flag false is at least the score of the row with that flag true, for each of the
  three flags.
\<close>

theorem score_row_monotone:
  "fst (score_row (row\<lparr>in_title := True\<rparr>)) \<le> fst (score_row (row\<lparr>in_title := False\<rparr>))
   \<and> fst (score_row (row\<lparr>in_h1 := True\<rparr>)) \<le> fst (score_row (row\<lparr>in_h1 := False\<rparr>))
   \<and> fst (score_row (row\<lparr>in_content := True\<rparr>)) \<le> fst (score_row (row\<lparr>in_content := False\<rparr>))"
  by (simp add: score_row_fst)

section \<open>Filtering\<close>

lemma first_hit_Cons_0: "(first_hit re (t # ts) r = 0) = keyword_hit re t r"
  by (simp add: first_hit_def)

lemma first_hit_Cons_Suc:
  "(first_hit re (t # ts) r = Suc i) = (\<not> keyword_hit re t r \<and> first_hit re ts r = i)"
  by (simp add: first_hit_def)

lemma first_hit_le: "first_hit re bl r \<le> length bl"
  by (simp add: first_hit_def length_takeWhile_le)

lemma first_hit_nth:
  "first_hit re bl r < length bl \<Longrightarrow> keyword_hit re (bl ! first_hit re bl r) r"
  unfolding first_hit_def by (metis nth_length_takeWhile)

lemma first_hit_before: "k < first_hit re bl r \<Longrightarrow> \<not> keyword_hit re (bl ! k) r"
  unfolding first_hit_def by (metis takeWhile_nth nth_mem set_takeWhileD)

lemma upt_Suc_shift: "[0..<Suc n] = 0 # map Suc [0..<n]"
  by (simp add: upt_conv_Cons map_Suc_upt del: upt_Suc)

text \<open>The loop raises exactly when some term of the blocklist does not compile.\<close>

lemma apply_blocklist_None:
  "(apply_blocklist re bl acc = None) = (\<exists>t \<in> set bl. re t = None)"
proof (induction bl arbitrary: acc)
  case Nil
  then show ?case by (cases acc) simp
next
  case (Cons t ts)
  obtain r f where acc: "acc = (r, f)" by (cases acc)
  show ?case
  proof (cases "re t")
    case None
    then show ?thesis by (auto simp: acc)
  next
    case (Some search)
    then show ?thesis by (simp add: acc Let_def Cons.IH)
  qed
qed

text \<open>When every term compiles, pass \<open>i\<close> of the loop removes the rows whose first
  matching term is term \<open>i\<close>; what is left at the end matches no term.\<close>

lemma apply_blocklist_batches:
  "\<forall>t \<in> set bl. re t \<noteq> None \<Longrightarrow>
   apply_blocklist re bl (acc, df) =
     Some (acc @ concat (map (\<lambda>i. filter (\<lambda>r. first_hit re bl r = i) df) [0..<length bl]),
           filter (\<lambda>r. first_hit re bl r = length bl) df)"
proof (induction bl arbitrary: acc df)
  case Nil
  then show ?case by (simp add: first_hit_def)
next
  case (Cons t ts)
  from Cons.prems obtain search where s: "re t = Some search"
    by auto
  then have hit: "str_contains search = keyword_hit re t"
    by (simp add: keyword_hit_def fun_eq_iff)
  from Cons.prems have rest_ok: "\<forall>t \<in> set ts. re t \<noteq> None"
    by simp
  have batches:
    "map (\<lambda>i. filter (\<lambda>r. first_hit re (t # ts) r = i) df) [0..<Suc (length ts)] =
       filter (keyword_hit re t) df #
       map (\<lambda>i. filter (\<lambda>r. first_hit re ts r = i) (filter (\<lambda>r. \<not> keyword_hit re t r) df))
         [0..<length ts]"
    unfolding upt_Suc_shift
    by (simp add: first_hit_Cons_0 first_hit_Cons_Suc comp_def conj_commute del: upt_Suc)
  have rest:
    "filter (\<lambda>r. first_hit re (t # ts) r = Suc (length ts)) df =
       filter (\<lambda>r. first_hit re ts r = length ts) (filter (\<lambda>r. \<not> keyword_hit re t r) df)"
    by (simp add: first_hit_Cons_Suc conj_commute)
  have "apply_blocklist re (t # ts) (acc, df) =
          apply_blocklist re ts
            (acc @ filter (keyword_hit re t) df, filter (\<lambda>r. \<not> keyword_hit re t r) df)"
    by (simp add: s Let_def hit)
  also note Cons.IH [OF rest_ok]
  finally show ?case
    using batches rest by (simp del: upt_Suc)
qed

lemma count_batches:
  "count (mset (concat (map (\<lambda>i. filter (\<lambda>r. f r = i) df) [0..<n]))) row =
     (if f row < n then count (mset df) row else 0)"
proof (induction n)
  case 0
  then show ?case by simp
next
  case (Suc n)
  have "count (mset (filter (\<lambda>r. f r = n) df)) row =
          (if f row = n then count (mset df) row else 0)"
    by (simp add: count_mset_0_iff)
  with Suc show ?case by (auto simp: mset_filter)
qed

lemma apply_blocklist_mset:
  assumes "apply_blocklist re bl ([], df) = Some (removed, filtered)"
  shows "mset removed + mset filtered = mset df"
proof -
  from assms have "apply_blocklist re bl ([], df) \<noteq> None"
    by simp
  then have ok: "\<forall>t \<in> set bl. re t \<noteq> None"
    by (simp add: apply_blocklist_None)
  from assms have r: "removed = concat (map (\<lambda>i. filter (\<lambda>r. first_hit re bl r = i) df)
                                         [0..<length bl])"
    and f: "filtered = filter (\<lambda>r. first_hit re bl r = length bl) df"
    by (simp_all add: apply_blocklist_batches [OF ok])
  show ?thesis
  proof (rule multiset_eqI)
    fix row
    show "count (mset removed + mset filtered) row = count (mset df) row"
      using first_hit_le [of re bl row]
      by (auto simp: r f count_batches count_mset_0_iff)
  qed
qed

text \<open>
  Whatever the pattern engine finds: when every term compiles and more than one term
  matches a row (the terms at places \<open>i < j\<close>), the row is removed in the pass of
  its first matching term, stands in the removed collection as often as in the frame
  the loop starts from, and is absent from the filtered output.
\<close>

lemma first_matching_term_wins:
  assumes "\<forall>t \<in> set blocklist. re t \<noteq> None"
    and "i < j" and "j < length blocklist"
    and "keyword_hit re (blocklist ! i) row" and "keyword_hit re (blocklist ! j) row"
    and "apply_blocklist re blocklist ([], df) = Some (removed, filtered)"
  shows "removed = concat (map (\<lambda>k. filter (\<lambda>r. first_hit re blocklist r = k) df)
                             [0..<length blocklist])
       \<and> first_hit re blocklist row \<le> i
       \<and> count (mset removed) row = count (mset df) row
       \<and> row \<notin> set filtered"
proof -
  have le: "first_hit re blocklist row \<le> i"
    using assms(4) first_hit_before [of i re blocklist row] by (meson not_le_imp_less)
  then have lt: "first_hit re blocklist row < length blocklist"
    using assms(2,3) by simp
  from assms(6) have r: "removed = concat (map (\<lambda>k. filter (\<lambda>r. first_hit re blocklist r = k) df)
                                         [0..<length blocklist])"
    and f: "filtered = filter (\<lambda>r. first_hit re blocklist r = length blocklist) df"
    by (simp_all add: apply_blocklist_batches [OF assms(1)])
  have "count (mset removed) row = count (mset df) row"
    using lt by (simp add: r count_batches)
  moreover have "row \<notin> set filtered"
    using lt by (simp add: f)
  ultimately show ?thesis
    using le r by simp
qed

text \<open>
  C3 does not hold of the code. The help text of the blocklist says that keywords
  containing the terms will be excluded, but lines 362 and 364 search each term as a
  pattern. The keyword \<^verbatim>\<open>Nike (Official) Store [US]\<close> contains both terms of the
  blocklist \<^verbatim>\<open>Nike (Official)\<close>, \<^verbatim>\<open>Store [US]\<close> as substrings, case
  ignored; as patterns, neither term is found in it (a group, a character class), so
  the row is not removed at all and stays in the filtered output. Were the terms
  searched as they are written, the row would be removed once, by the first term.
\<close>

theorem pattern_search_keeps_keyword_containing_terms:
  "blocklist_terms nike_blocklist = [''nike (official)'', ''store [us]'']
   \<and> py_in ''nike (official)'' (lower (keyword nike_row))
   \<and> py_in ''store [us]'' (lower (keyword nike_row))
   \<and> filter_keywords nike_re (3, 20) 10 nike_blocklist True [nike_row, plain_row]
       = Some ([], [nike_row, plain_row])
   \<and> filter_keywords literal_re (3, 20) 10 nike_blocklist True [nike_row, plain_row]
       = Some ([nike_row], [plain_row])"
  by code_simp

lemma position_filter_set:
  "row \<in> set (position_filter pr df) \<Longrightarrow> fst pr \<le> position row \<and> position row \<le> snd pr"
  by (simp add: position_filter_def)

lemma impressions_filter_set:
  "row \<in> set (impressions_filter hi mi df) \<Longrightarrow>
     row \<in> set df \<and> (hi \<longrightarrow> (\<exists>n. impressions row = Some n \<and> mi \<le> n))"
  by (auto simp: impressions_filter_def split: if_splits option.splits)

lemma filter_keywords_None:
  "(filter_keywords re pr mi bi hi df = None)
     = (bi \<noteq> [] \<and> (\<exists>trm \<in> set (blocklist_terms bi). re trm = None))"
  by (simp add: filter_keywords_def Let_def apply_blocklist_None)

lemma filter_keywords_mset:
  assumes "filter_keywords re pr mi bi hi df = Some (removed, filtered)"
  shows "mset removed + mset filtered = mset (impressions_filter hi mi (position_filter pr df))"
proof (cases "bi = []")
  case True
  with assms show ?thesis
    by (simp add: filter_keywords_def Let_def)
next
  case False
  with assms have "apply_blocklist re (blocklist_terms bi)
                     ([], impressions_filter hi mi (position_filter pr df))
                   = Some (removed, filtered)"
    by (simp add: filter_keywords_def Let_def)
  then show ?thesis
    by (rule apply_blocklist_mset)
qed

text \<open>
  C5. The filters run in the order position range, minimum impressions (applied only
  when the frame has the column), blocklist. The handler gets past the blocklist
  unless a term fails to compile as a pattern; when it does, the removed rows and
  the filtered rows together are exactly the rows that the first two filters have
  kept. So every removed row has its position in the range, and when the column
  exists it has an impressions value of at least the minimum.
\<close>

theorem blocklist_removed_passed_earlier_filters:
  "(filter_keywords re pr mi bi hi df = None)
     = (bi \<noteq> [] \<and> (\<exists>trm \<in> set (blocklist_terms bi). re trm = None))
   \<and> (\<forall>removed filtered.
        filter_keywords re pr mi bi hi df = Some (removed, filtered) \<longrightarrow>
        mset removed + mset filtered = mset (impressions_filter hi mi (position_filter pr df))
        \<and> (\<forall>row \<in> set removed.
             fst pr \<le> position row \<and> position row \<le> snd pr
             \<and> (hi \<longrightarrow> (\<exists>n. impressions row = Some n \<and> mi \<le> n))))"
proof (intro conjI allI impI ballI)
  show "(filter_keywords re pr mi bi hi df = None)
     = (bi \<noteq> [] \<and> (\<exists>trm \<in> set (blocklist_terms bi). re trm = None))"
    by (rule filter_keywords_None)
next
  fix removed filtered
  assume "filter_keywords re pr mi bi hi df = Some (removed, filtered)"
  then show "mset removed + mset filtered
               = mset (impressions_filter hi mi (position_filter pr df))"
    by (rule filter_keywords_mset)
next
  fix removed filtered row
  assume s: "filter_keywords re pr mi bi hi df = Some (removed, filtered)"
    and "row \<in> set removed"
  then have "row \<in># mset removed + mset filtered"
    by simp
  then have "row \<in> set (impressions_filter hi mi (position_filter pr df))"
    by (simp only: filter_keywords_mset [OF s] set_mset_mset)
  then have p: "row \<in> set (position_filter pr df)"
      and imp: "hi \<longrightarrow> (\<exists>n. impressions row = Some n \<and> mi \<le> n)"
    using impressions_filter_set by blast+
  from p show "fst pr \<le> position row"
    by (simp add: position_filter_set)
  from p show "position row \<le> snd pr"
    by (simp add: position_filter_set)
  assume hi
  with imp show "\<exists>n. impressions row = Some n \<and> mi \<le> n"
    by simp
qed

theorem blocklist_removed_passed_earlier_filters_witness:
  "filter_keywords literal_re (3, 20) 10 ''near me'' True [plain_row, near_me_row, far_row]
     = Some ([near_me_row], [plain_row]) \<and>
   3 \<le> position near_me_row \<and> position near_me_row \<le> 20 \<and>
   (\<exists>n. impressions near_me_row = Some n \<and> 10 \<le> n)"
proof -
  have e: "filter_keywords literal_re (3, 20) 10 ''near me'' True
             [plain_row, near_me_row, far_row]
             = Some ([near_me_row], [plain_row])"
    by code_simp
  have r: "near_me_row \<in> set [near_me_row]"
    by simp
  note t = conjunct2 [OF blocklist_removed_passed_earlier_filters
             [of literal_re "(3, 20)" 10 "''near me''" True "[plain_row, near_me_row, far_row]"]]
  from bspec [OF conjunct2 [OF t [rule_format, OF e]] r]
  have "3 \<le> position near_me_row \<and> position near_me_row \<le> 20 \<and>
        (\<exists>n. impressions near_me_row = Some n \<and> 10 \<le> n)"
    by simp
  with e show ?thesis by simp
qed

section \<open>Crawling\<close>

lemma collect_result_stored: "collect_result web m u = m(u \<mapsto> stored_page web u)"
  by (simp add: collect_result_def crawl_url_def stored_page_def split: response.splits)

lemma crawl_all_foldl:
  "foldl (collect_result web) m us =
     (\<lambda>u. if u \<in> set us then Some (stored_page web u) else m u)"
proof (induction us arbitrary: m)
  case Nil
  then show ?case by simp
next
  case (Cons a us)
  have "foldl (collect_result web) m (a # us)
          = foldl (collect_result web) (collect_result web m a) us"
    by simp
  also have "\<dots> = (\<lambda>u. if u \<in> set us then Some (stored_page web u)
                        else collect_result web m a u)"
    by (rule Cons.IH)
  also have "\<dots> = (\<lambda>u. if u \<in> set (a # us) then Some (stored_page web u) else m u)"
    by (auto simp: collect_result_stored fun_eq_iff)
  finally show ?case .
qed

lemma crawl_all_lookup:
  "crawl_all web completed = (\<lambda>u. if u \<in> set completed then Some (stored_page web u) else None)"
  by (simp add: crawl_all_def crawl_all_foldl)

lemma page_url_stored: "page_url (stored_page web u) = u"
  by (simp add: stored_page_def split: response.splits)

text \<open>
  C6. Let the futures of the requested URLs finish in any order (\<open>completed\<close> is a
  rearrangement of \<open>urls\<close>). The crawl map then has the requested URLs as its
  keys, one entry for each, and it is the map of any other order. The entry of a URL
  carries that URL; when fetching it raised an exception that \<^verbatim>\<open>crawl_url\<close>
  does not handle, or one it handles, the entry is the failure page with the message
  in its status, and otherwise it is the extracted page. No branch of the loop ends
  the batch.
\<close>

theorem crawl_all_covers_every_url:
  assumes "mset completed = mset urls"
  shows "dom (crawl_all web completed) = set urls
     \<and> (distinct urls \<longrightarrow> card (dom (crawl_all web completed)) = length urls)
     \<and> crawl_all web completed = crawl_all web urls
     \<and> (\<forall>u \<in> set urls. \<exists>p. crawl_all web completed u = Some p \<and> page_url p = u
          \<and> (\<forall>e. web u = OtherException e \<longrightarrow>
                p = \<lparr>page_url = u, title = [], h1 = [], content = [], status = ''error: '' @ e\<rparr>)
          \<and> (\<forall>e. web u = RequestException e \<longrightarrow>
                p = \<lparr>page_url = u, title = [], h1 = [], content = [], status = ''error: '' @ e\<rparr>)
          \<and> (\<forall>t h c. web u = Extracted t h c \<longrightarrow>
                p = \<lparr>page_url = u, title = t, h1 = h, content = take 5000 c, status = ''success''\<rparr>))"
proof -
  from assms have s: "set completed = set urls"
    by (rule mset_eq_setD)
  have d: "dom (crawl_all web completed) = set urls"
    by (auto simp: crawl_all_lookup s dom_def)
  have c: "distinct urls \<longrightarrow> card (dom (crawl_all web completed)) = length urls"
    by (simp add: d distinct_card)
  have e: "crawl_all web completed = crawl_all web urls"
    by (simp add: crawl_all_lookup s)
  have p: "\<forall>u \<in> set urls. \<exists>p. crawl_all web completed u = Some p \<and> page_url p = u
          \<and> (\<forall>e. web u = OtherException e \<longrightarrow>
                p = \<lparr>page_url = u, title = [], h1 = [], content = [], status = ''error: '' @ e\<rparr>)
          \<and> (\<forall>e. web u = RequestException e \<longrightarrow>
                p = \<lparr>page_url = u, title = [], h1 = [], content = [], status = ''error: '' @ e\<rparr>)
          \<and> (\<forall>t h c. web u = Extracted t h c \<longrightarrow>
                p = \<lparr>page_url = u, title = t, h1 = h, content = take 5000 c, status = ''success''\<rparr>)"
    by (simp add: crawl_all_lookup s page_url_stored) (simp add: stored_page_def)
  show ?thesis
    by (rule conjI [OF d conjI [OF c conjI [OF e p]]])
qed

theorem crawl_all_covers_every_url_witness:
  "mset [''/p3'', ''/p1'', ''/p2''] = mset [''/p1'', ''/p2'', ''/p3''] \<and>
   dom (crawl_all small_web [''/p3'', ''/p1'', ''/p2'']) = set [''/p1'', ''/p2'', ''/p3''] \<and>
   card (dom (crawl_all small_web [''/p3'', ''/p1'', ''/p2''])) = 3 \<and>
   (\<exists>p. crawl_all small_web [''/p3'', ''/p1'', ''/p2''] ''/p3'' = Some p \<and>
        p = \<lparr>page_url = ''/p3'', title = [], h1 = [], content = [],
             status = ''error: '' @ ''bad markup''\<rparr>)"
proof -
  have m: "mset [''/p3'', ''/p1'', ''/p2''] = mset [''/p1'', ''/p2'', ''/p3'']"
    by (simp add: add_mset_commute)
  have w: "small_web ''/p3'' = OtherException ''bad markup''"
    by (simp add: small_web_def)
  have dd: "distinct [''/p1'', ''/p2'', ''/p3'']" by simp
  have i: "''/p3'' \<in> set [''/p1'', ''/p2'', ''/p3'']" by simp
  note t = crawl_all_covers_every_url [OF m, of small_web]
  from t have 1: "dom (crawl_all small_web [''/p3'', ''/p1'', ''/p2'']) = set [''/p1'', ''/p2'', ''/p3'']"
    by (rule conjunct1)
  from conjunct1 [OF conjunct2 [OF t]] dd
  have "card (dom (crawl_all small_web [''/p3'', ''/p1'', ''/p2'']))
          = length [''/p1'', ''/p2'', ''/p3'']"
    by (rule mp)
  then have 2: "card (dom (crawl_all small_web [''/p3'', ''/p1'', ''/p2''])) = 3"
    by simp
  have "\<forall>u \<in> set [''/p1'', ''/p2'', ''/p3''].
      \<exists>p. crawl_all small_web [''/p3'', ''/p1'', ''/p2''] u = Some p \<and> page_url p = u
          \<and> (\<forall>e. small_web u = OtherException e \<longrightarrow>
                p = \<lparr>page_url = u, title = [], h1 = [], content = [], status = ''error: '' @ e\<rparr>)
          \<and> (\<forall>e. small_web u = RequestException e \<longrightarrow>
                p = \<lparr>page_url = u, title = [], h1 = [], content = [], status = ''error: '' @ e\<rparr>)
          \<and> (\<forall>t h c. small_web u = Extracted t h c \<longrightarrow>
                p = \<lparr>page_url = u, title = t, h1 = h, content = take 5000 c, status = ''success''\<rparr>)"
    by (rule conjunct2 [OF conjunct2 [OF conjunct2 [OF t]]])
  from bspec [OF this i] w
  have 3: "\<exists>p. crawl_all small_web [''/p3'', ''/p1'', ''/p2''] ''/p3'' = Some p \<and>
        p = \<lparr>page_url = ''/p3'', title = [], h1 = [], content = [],
             status = ''error: '' @ ''bad markup''\<rparr>"
    by blast
  show ?thesis
    by (rule conjI [OF m conjI [OF 1 conjI [OF 2 3]]])
qed

section \<open>Matching and categorising\<close>

lemma base_row_match_row: "base_row (match_row row cd) = row"
  by (simp add: base_row_def match_row_def Let_def)

lemma matched_of_None: "(matched_of cr row = None) = (\<not> crawled_ok cr (url row))"
  by (simp add: matched_of_def crawled_ok_def split: option.splits)

lemma matched_of_Some: "matched_of cr row = Some m \<Longrightarrow> base_row m = row \<and> url m = url row"
  by (auto simp: matched_of_def base_row_match_row split: option.splits if_splits)
     (simp add: match_row_def Let_def)

lemma check_row_cases:
  "check_row cr acc row =
     (case matched_of cr row of
        None \<Rightarrow> (fst acc, snd acc @ [(url row, keyword row)])
      | Some m \<Rightarrow> (fst acc @ [m], snd acc))"
  by (simp add: check_row_def matched_of_def split: option.splits)

lemma check_rows_foldl:
  "foldl (check_row cr) acc df =
     (fst acc @ List.map_filter (matched_of cr) df,
      snd acc @ map (\<lambda>r. (url r, keyword r)) (filter (\<lambda>r. matched_of cr r = None) df))"
proof (induction df arbitrary: acc)
  case Nil
  then show ?case by (simp add: List.map_filter_simps)
next
  case (Cons row df)
  show ?case
  proof (cases "matched_of cr row")
    case None
    then have "check_row cr acc row = (fst acc, snd acc @ [(url row, keyword row)])"
      by (simp add: check_row_cases)
    with None show ?thesis
      by (simp add: Cons.IH List.map_filter_simps)
  next
    case (Some m)
    then have "check_row cr acc row = (fst acc @ [m], snd acc)"
      by (simp add: check_row_cases)
    with Some show ?thesis
      by (simp add: Cons.IH List.map_filter_simps)
  qed
qed

lemma check_rows_eq:
  "check_rows cr df =
     (List.map_filter (matched_of cr) df,
      map (\<lambda>r. (url r, keyword r)) (filter (\<lambda>r. \<not> crawled_ok cr (url r)) df))"
  by (simp add: check_rows_def check_rows_foldl matched_of_None)

lemma results_base:
  "map base_row (List.map_filter (matched_of cr) df) = filter (\<lambda>r. crawled_ok cr (url r)) df"
proof (induction df)
  case Nil
  then show ?case by (simp add: List.map_filter_simps)
next
  case (Cons row df)
  then show ?case
    by (cases "matched_of cr row")
       (auto simp: List.map_filter_simps matched_of_None [symmetric] dest: matched_of_Some)
qed

lemma results_member:
  "m \<in> set (List.map_filter (matched_of cr) df) \<Longrightarrow>
     matched_of cr (base_row m) = Some m \<and> crawled_ok cr (url m) \<and> base_row m \<in> set df"
proof -
  assume "m \<in> set (List.map_filter (matched_of cr) df)"
  then obtain row where r: "row \<in> set df" "matched_of cr row = Some m"
    by (auto simp: List.map_filter_def)
  then have b: "base_row m = row" "url m = url row"
    using matched_of_Some by blast+
  have "crawled_ok cr (url row)"
    using r(2) matched_of_None [of cr row] by simp
  with r b show ?thesis by simp
qed

text \<open>Whatever the sort kind, sorting rearranges the rows and leaves the keys
  ascending.\<close>

lemma mset_sort_values: "mset (sort_values kind col df) = mset df"
proof -
  have "mset (sort_values kind col df) = image_mset snd (mset (enumerate 0 df))"
    by (simp add: sort_values_def)
  also have "\<dots> = mset (map snd (enumerate 0 df))"
    by (simp only: mset_map)
  also have "\<dots> = mset df"
    by (simp only: map_snd_enumerate)
  finally show ?thesis .
qed

lemma set_sort_values: "set (sort_values kind col df) = set df"
  by (rule mset_eq_setD [OF mset_sort_values])

lemma sorted_sort_values: "sorted (map col (sort_values kind col df))"
proof -
  have "map col (sort_values kind col df)
          = map (col \<circ> snd)
              (sort_key (col \<circ> snd) (sort_key (kind (map col df) \<circ> fst) (enumerate 0 df)))"
    by (simp add: sort_values_def)
  then show ?thesis
    by (simp only: sorted_sort_key)
qed

lemma place_in_distinct:
  "distinct js \<Longrightarrow> k < length js \<Longrightarrow> length (takeWhile (\<lambda>j. j \<noteq> js ! k) js) = k"
proof (induction js arbitrary: k)
  case Nil
  then show ?case by simp
next
  case (Cons a js)
  show ?case
  proof (cases k)
    case 0
    then show ?thesis by simp
  next
    case (Suc k')
    with Cons.prems have "js ! k' \<in> set js" and "a \<notin> set js"
      by simp_all
    then have "a \<noteq> js ! k'" by blast
    with Suc Cons show ?thesis by simp
  qed
qed

text \<open>Every rearrangement of the rows with ascending keys is what some sort kind
  returns, so the parameter leaves the order of rows of equal key open.\<close>

lemma sort_values_any_order:
  assumes m: "mset ys = mset xs" and s: "sorted (map col ys)"
  shows "\<exists>kind. sort_values kind col xs = ys"
proof -
  let ?n = "length xs"
  have len: "length ys = ?n"
    using m by (rule mset_eq_length)
  from ex_mset_zip_left [of xs "[0..<?n]" ys] m
  obtain js where lj: "length js = length ys"
    and mz: "mset (zip ys js) = mset (zip xs [0..<?n])"
    by auto
  let ?zs = "zip js ys"
  have sw: "mset ?zs = mset (enumerate 0 xs)"
  proof -
    have "mset (zip js ys) = image_mset (\<lambda>(x, y). (y, x)) (mset (zip ys js))"
      by (subst zip_commute) simp
    also have "\<dots> = image_mset (\<lambda>(x, y). (y, x)) (mset (zip xs [0..<?n]))"
      by (simp only: mz)
    also have "\<dots> = mset (zip [0..<?n] xs)"
      by (subst (2) zip_commute) simp
    finally show ?thesis
      by (simp add: enumerate_eq_zip)
  qed
  have fz: "map fst ?zs = js" and sz: "map snd ?zs = ys"
    using lj by simp_all
  have "mset js = mset (map fst (enumerate 0 xs))"
    using sw fz by (metis mset_map)
  then have mj: "mset js = mset [0..<?n]"
    by simp
  then have dj: "distinct js"
    by (metis distinct_upt mset_eq_imp_distinct_iff)
  define rank where "rank i = length (takeWhile (\<lambda>j. j \<noteq> i) js)" for i
  have rk: "rank (js ! k) = k" if "k < length js" for k
    unfolding rank_def using dj that by (rule place_in_distinct)
  have mr: "map rank js = [0..<length js]"
    by (rule nth_equalityI) (simp_all add: rk)
  have inj: "inj_on (rank \<circ> fst) (set ?zs)"
  proof (rule inj_onI)
    fix p q
    assume p: "p \<in> set ?zs" and q: "q \<in> set ?zs" and e: "(rank \<circ> fst) p = (rank \<circ> fst) q"
    from p obtain a where a: "a < length js" "p = (js ! a, ys ! a)"
      using lj by (auto simp: set_zip)
    from q obtain b where b: "b < length js" "q = (js ! b, ys ! b)"
      using lj by (auto simp: set_zip)
    from e a b have "a = b"
      by (simp add: rk)
    with a b show "p = q" by simp
  qed
  have sorted_rank: "sorted (map (rank \<circ> fst) ?zs)"
  proof -
    have "map (rank \<circ> fst) ?zs = map rank (map fst ?zs)"
      by simp
    then show ?thesis
      by (simp only: fz mr sorted_upt)
  qed
  have ties: "filter (\<lambda>x. (rank \<circ> fst) k = (rank \<circ> fst) x) ?zs
                = filter (\<lambda>x. (rank \<circ> fst) k = (rank \<circ> fst) x) (enumerate 0 xs)"
    if k: "k \<in> set ?zs" for k
  proof -
    have se: "set (enumerate 0 xs) = set ?zs"
      using sw by (metis mset_eq_setD)
    have "filter (\<lambda>x. (rank \<circ> fst) k = (rank \<circ> fst) x) ?zs = filter (HOL.eq k) ?zs"
      by (rule filter_cong [OF refl]) (simp only: inj_on_eq_iff [OF inj k])
    also have "\<dots> = replicate (count (mset ?zs) k) k"
      by (simp only: replicate_count_mset_eq_filter_eq)
    also have "\<dots> = replicate (count (mset (enumerate 0 xs)) k) k"
      by (simp only: sw)
    also have "\<dots> = filter (HOL.eq k) (enumerate 0 xs)"
      by (simp only: replicate_count_mset_eq_filter_eq)
    also have "\<dots> = filter (\<lambda>x. (rank \<circ> fst) k = (rank \<circ> fst) x) (enumerate 0 xs)"
      by (rule filter_cong [OF refl]) (simp only: se inj_on_eq_iff [OF inj k])
    finally show ?thesis .
  qed
  have first: "sort_key (rank \<circ> fst) (enumerate 0 xs) = ?zs"
    using sw ties sorted_rank by (rule properties_for_sort_key)
  have "sorted (map (col \<circ> snd) ?zs)"
    using s sz by (metis map_map)
  then have second: "sort_key (col \<circ> snd) ?zs = ?zs"
    by (rule sort_key_id_if_sorted)
  have "sort_values (\<lambda>keys. rank) col xs = map snd ?zs"
    unfolding sort_values_def by (simp only: first second)
  then show ?thesis
    using sz by auto
qed

lemma insort_key_snd:
  "map snd (insort_key (\<lambda>z. col (snd z)) z zs) = insort_key col (snd z) (map snd zs)"
  by (induction zs) auto

lemma sort_key_snd: "map snd (sort_key (\<lambda>z. col (snd z)) zs) = sort_key col (map snd zs)"
  by (induction zs) (simp_all add: insort_key_snd)

text \<open>The kind that ranks all places alike is the stable insertion sort.\<close>

lemma sort_values_stable: "sort_values stable col df = sort_key col df"
proof -
  have "sort_key (stable (map col df) \<circ> fst) (enumerate 0 df) = enumerate 0 df"
    by (simp add: stable_def comp_def sort_key_const)
  then show ?thesis
    by (simp add: sort_values_def sort_key_snd comp_def)
qed

lemma select_all_checks_passed_eq:
  "select_all_checks_passed rs = filter (\<lambda>r. in_title r \<and> in_h1 r \<and> in_content r) rs"
  by (simp add: select_all_checks_passed_def)

lemma select_striking_distance_mset:
  "mset (select_striking_distance kind rs)
     = mset (filter (\<lambda>r. \<not> (in_title r \<and> in_h1 r \<and> in_content r)) rs)"
  by (simp add: select_striking_distance_def de_Morgan_conj mset_sort_values)

lemma select_striking_distance_set:
  "set (select_striking_distance kind rs) = {r \<in> set rs. \<not> (in_title r \<and> in_h1 r \<and> in_content r)}"
  by (auto simp: select_striking_distance_def set_sort_values)

lemma filter_split_mset: "mset (filter P xs) + mset (filter (\<lambda>x. \<not> P x) xs) = mset xs"
  by (induction xs) auto

lemma buckets_mset:
  "mset (map base_row (select_all_checks_passed rs)) + mset (map base_row (select_striking_distance kind rs))
     = mset (map base_row rs)"
proof -
  have "mset (select_all_checks_passed rs) + mset (select_striking_distance kind rs) = mset rs"
    unfolding select_all_checks_passed_eq select_striking_distance_mset
    by (rule filter_split_mset)
  then have "image_mset base_row (mset (select_all_checks_passed rs) + mset (select_striking_distance kind rs))
      = image_mset base_row (mset rs)"
    by simp
  then show ?thesis by simp
qed

section \<open>Opportunities\<close>

lemma base_row_with_opportunity: "base_row (with_opportunity l s r) = base_row l"
  by (simp add: base_row_def with_opportunity_def)

lemma mset_sort_values_desc: "mset (sort_values_desc kind col df) = mset df"
proof -
  have "mset (sort_values_desc kind col df)
          = mset (filter (\<lambda>row. col row \<noteq> None) df) + mset (filter (\<lambda>row. \<not> col row \<noteq> None) df)"
    by (simp add: sort_values_desc_def mset_sort_values)
  then show ?thesis
    by (simp only: filter_split_mset)
qed

lemma matching_opportunities:
  "filter (\<lambda>r. opp_url r = url l \<and> opp_keyword r = keyword l)
      (calculate_striking_distance_opportunities striking)
     = map opportunity_of (partners striking l)"
  by (simp add: calculate_striking_distance_opportunities_def partners_def filter_map comp_def
        opportunity_of_def)

lemma partners_self: "l \<in> set striking \<Longrightarrow> partners striking l \<noteq> []"
  by (auto simp: partners_def filter_empty_conv)

lemma merge_left_row:
  "(case filter (\<lambda>r. opp_url r = url l \<and> opp_keyword r = keyword l)
           (calculate_striking_distance_opportunities striking) of
      [] \<Rightarrow> [with_opportunity l None None]
    | m # ms \<Rightarrow> map (\<lambda>r. with_opportunity l (Some (opp_score r)) (Some (opp_recommendations r))) (m # ms))
   = (if partners striking l = [] then [with_opportunity l None None]
      else map (\<lambda>l'. with_opportunity l (Some (fst (score_row l')))
                       (Some (join '' | '' (snd (score_row l'))))) (partners striking l))"
  unfolding matching_opportunities
  by (cases "partners striking l") (simp_all add: opportunity_of_def)

lemma merge_left_self_gen:
  "set ls \<subseteq> set striking \<Longrightarrow>
   merge_left ls (calculate_striking_distance_opportunities striking)
     = concat (map (\<lambda>l. map (\<lambda>l'. with_opportunity l (Some (fst (score_row l')))
                       (Some (join '' | '' (snd (score_row l'))))) (partners striking l)) ls)"
proof -
  assume sub: "set ls \<subseteq> set striking"
  have "map (\<lambda>l. case filter (\<lambda>r. opp_url r = url l \<and> opp_keyword r = keyword l)
           (calculate_striking_distance_opportunities striking) of
      [] \<Rightarrow> [with_opportunity l None None]
    | m # ms \<Rightarrow> map (\<lambda>r. with_opportunity l (Some (opp_score r)) (Some (opp_recommendations r))) (m # ms)) ls
     = map (\<lambda>l. map (\<lambda>l'. with_opportunity l (Some (fst (score_row l')))
                       (Some (join '' | '' (snd (score_row l'))))) (partners striking l)) ls"
  proof (rule map_cong [OF refl])
    fix l assume "l \<in> set ls"
    with sub have "l \<in> set striking" by blast
    then have "partners striking l \<noteq> []" by (rule partners_self)
    then show "(case filter (\<lambda>r. opp_url r = url l \<and> opp_keyword r = keyword l)
           (calculate_striking_distance_opportunities striking) of
      [] \<Rightarrow> [with_opportunity l None None]
    | m # ms \<Rightarrow> map (\<lambda>r. with_opportunity l (Some (opp_score r)) (Some (opp_recommendations r))) (m # ms))
       = map (\<lambda>l'. with_opportunity l (Some (fst (score_row l')))
                       (Some (join '' | '' (snd (score_row l'))))) (partners striking l)"
      by (simp only: merge_left_row if_False)
  qed
  then show ?thesis
    unfolding merge_left_def by (rule arg_cong)
qed

lemma merge_left_self:
  "merge_left striking (calculate_striking_distance_opportunities striking)
     = concat (map (\<lambda>l. map (\<lambda>l'. with_opportunity l (Some (fst (score_row l')))
                       (Some (join '' | '' (snd (score_row l'))))) (partners striking l)) striking)"
  by (rule merge_left_self_gen) simp

lemma merged_row:
  "r \<in> set (merge_left striking (calculate_striking_distance_opportunities striking)) \<Longrightarrow>
     \<exists>l \<in> set striking. \<exists>l' \<in> set striking. url l' = url l \<and> keyword l' = keyword l
        \<and> r = with_opportunity l (Some (fst (score_row l'))) (Some (join '' | '' (snd (score_row l'))))"
  by (auto simp: merge_left_self partners_def)

lemma length_merged:
  "length (merge_left striking (calculate_striking_distance_opportunities striking))
     = sum_list (map (\<lambda>l. length (partners striking l)) striking)"
  by (simp add: merge_left_self length_concat comp_def)

lemma base_rows_merged:
  "base_row ` set (merge_left striking (calculate_striking_distance_opportunities striking))
     = base_row ` set striking"
proof
  show "base_row ` set (merge_left striking (calculate_striking_distance_opportunities striking))
     \<subseteq> base_row ` set striking"
    by (auto dest!: merged_row simp: base_row_with_opportunity)
next
  show "base_row ` set striking
     \<subseteq> base_row ` set (merge_left striking (calculate_striking_distance_opportunities striking))"
  proof
    fix b assume "b \<in> base_row ` set striking"
    then obtain l where l: "l \<in> set striking" "b = base_row l" by auto
    then have "l \<in> set (partners striking l)" by (simp add: partners_def)
    with l have "with_opportunity l (Some (fst (score_row l))) (Some (join '' | '' (snd (score_row l))))
        \<in> set (merge_left striking (calculate_striking_distance_opportunities striking))"
      by (auto simp: merge_left_self)
    then show "b \<in> base_row ` set (merge_left striking (calculate_striking_distance_opportunities striking))"
      using l base_row_with_opportunity by (metis image_eqI)
  qed
qed

lemma attach_opportunities_mset:
  "mset (attach_opportunities kind striking)
     = mset (merge_left striking (calculate_striking_distance_opportunities striking))"
  by (simp add: attach_opportunities_def Let_def mset_sort_values_desc merge_left_def)

lemma score_value_fun: "(\<lambda>row. case opportunity_score row of None \<Rightarrow> 0 | Some v \<Rightarrow> v) = score_value"
  by (simp add: fun_eq_iff score_value_def)

lemma sort_values_desc_sorted:
  assumes "\<forall>r \<in> set df. opportunity_score r \<noteq> None"
  shows "sorted_wrt (\<lambda>a b. score_value b \<le> score_value a)
           (sort_values_desc kind opportunity_score df)"
proof -
  from assms have a: "filter (\<lambda>row. opportunity_score row \<noteq> None) df = df"
    and b: "filter (\<lambda>row. opportunity_score row = None) df = []"
    by (simp_all add: filter_empty_conv)
  have "sorted (map score_value (sort_values kind score_value (rev df)))"
    by (rule sorted_sort_values)
  then have "sorted_wrt (\<lambda>a b. score_value a \<le> score_value b)
               (sort_values kind score_value (rev df))"
    by (simp only: sorted_map)
  then have "sorted_wrt (\<lambda>a b. score_value b \<le> score_value a)
               (rev (sort_values kind score_value (rev df)))"
    by (simp only: sorted_wrt_rev)
  then show ?thesis
    unfolding sort_values_desc_def a b score_value_fun by simp
qed

lemma merged_scored:
  "\<forall>r \<in> set (merge_left striking (calculate_striking_distance_opportunities striking)).
     opportunity_score r \<noteq> None"
  by (auto dest!: merged_row simp: with_opportunity_def)

lemma attach_opportunities_eq:
  "attach_opportunities kind striking =
     sort_values_desc kind opportunity_score
       (merge_left striking (calculate_striking_distance_opportunities striking))"
  by (simp add: attach_opportunities_def Let_def sort_values_desc_def sort_values_def
        merge_left_def)

section \<open>The categories of the report\<close>

text \<open>
  C1. Of the filtered rows fed into the loop of line 414, those whose URL was crawled
  with success go to \<^verbatim>\<open>results\<close> and the others to the not-found list, which
  carries their URL and keyword in order. The fully-optimised bucket (all three
  flags true) and the striking-distance bucket (some flag false) split
  \<^verbatim>\<open>results\<close>. So the rows behind the three buckets together are the filtered
  rows, each as often as it was fed in; no row is behind both the fully-optimised and
  the striking-distance bucket; the URLs of those two buckets were crawled with
  success and the URLs of the not-found bucket were not. Attaching the opportunities
  keeps the set of rows behind the striking-distance bucket. All of this holds
  whatever the sort kind does with rows of equal key.
\<close>

theorem categorisation_partitions_filtered_rows:
  "mset (map base_row (select_all_checks_passed (fst (check_rows cr df))))
     + mset (map base_row (select_striking_distance kind (fst (check_rows cr df))))
     + mset (filter (\<lambda>r. \<not> crawled_ok cr (url r)) df) = mset df
   \<and> snd (check_rows cr df)
       = map (\<lambda>r. (url r, keyword r)) (filter (\<lambda>r. \<not> crawled_ok cr (url r)) df)
   \<and> set (map base_row (select_all_checks_passed (fst (check_rows cr df))))
       \<inter> set (map base_row (select_striking_distance kind (fst (check_rows cr df)))) = {}
   \<and> (\<forall>m \<in> set (select_all_checks_passed (fst (check_rows cr df))).
         crawled_ok cr (url m) \<and> in_title m \<and> in_h1 m \<and> in_content m)
   \<and> (\<forall>m \<in> set (select_striking_distance kind (fst (check_rows cr df))).
         crawled_ok cr (url m) \<and> \<not> (in_title m \<and> in_h1 m \<and> in_content m))
   \<and> (\<forall>k \<in> set (snd (check_rows cr df)). \<not> crawled_ok cr (fst k))
   \<and> base_row ` set (attach_opportunities kind (select_striking_distance kind (fst (check_rows cr df))))
       = base_row ` set (select_striking_distance kind (fst (check_rows cr df)))"
proof -
  let ?R = "List.map_filter (matched_of cr) df"
  have R: "fst (check_rows cr df) = ?R"
    by (simp add: check_rows_eq)
  have 1: "mset (map base_row (select_all_checks_passed ?R))
     + mset (map base_row (select_striking_distance kind ?R))
     + mset (filter (\<lambda>r. \<not> crawled_ok cr (url r)) df) = mset df"
    by (simp only: buckets_mset results_base filter_split_mset)
  have 2: "snd (check_rows cr df)
       = map (\<lambda>r. (url r, keyword r)) (filter (\<lambda>r. \<not> crawled_ok cr (url r)) df)"
    by (simp add: check_rows_eq)
  have 3: "set (map base_row (select_all_checks_passed ?R))
       \<inter> set (map base_row (select_striking_distance kind ?R)) = {}"
  proof (rule ccontr)
    assume "set (map base_row (select_all_checks_passed ?R))
       \<inter> set (map base_row (select_striking_distance kind ?R)) \<noteq> {}"
    then obtain p s where p: "p \<in> set (select_all_checks_passed ?R)"
        and s: "s \<in> set (select_striking_distance kind ?R)" and e: "base_row p = base_row s"
      by auto
    from p have pR: "p \<in> set ?R" and pa: "in_title p \<and> in_h1 p \<and> in_content p"
      by (simp_all add: select_all_checks_passed_eq)
    from s have sR: "s \<in> set ?R" and sa: "\<not> (in_title s \<and> in_h1 s \<and> in_content s)"
      by (simp_all add: select_striking_distance_set)
    have "matched_of cr (base_row p) = Some p" and "matched_of cr (base_row s) = Some s"
      using results_member [OF pR] results_member [OF sR] by blast+
    with e have "p = s"
      by (metis option.inject)
    with pa sa show False by simp
  qed
  have 4: "\<forall>m \<in> set (select_all_checks_passed ?R).
         crawled_ok cr (url m) \<and> in_title m \<and> in_h1 m \<and> in_content m"
    using results_member [of _ cr df] by (simp add: select_all_checks_passed_eq)
  have 5: "\<forall>m \<in> set (select_striking_distance kind ?R).
         crawled_ok cr (url m) \<and> \<not> (in_title m \<and> in_h1 m \<and> in_content m)"
    using results_member [of _ cr df] by (simp add: select_striking_distance_set)
  have 6: "\<forall>k \<in> set (snd (check_rows cr df)). \<not> crawled_ok cr (fst k)"
    by (auto simp: check_rows_eq)
  have "set (attach_opportunities kind (select_striking_distance kind ?R))
          = set (merge_left (select_striking_distance kind ?R)
                  (calculate_striking_distance_opportunities (select_striking_distance kind ?R)))"
    unfolding attach_opportunities_eq by (rule mset_eq_setD [OF mset_sort_values_desc])
  then have 7: "base_row ` set (attach_opportunities kind (select_striking_distance kind ?R))
       = base_row ` set (select_striking_distance kind ?R)"
    by (simp only: base_rows_merged)
  show ?thesis
    unfolding R
    by (rule conjI [OF 1 conjI [OF 2 conjI [OF 3 conjI [OF 4 conjI [OF 5 conjI [OF 6 7]]]]]])
qed

theorem categorisation_partitions_filtered_rows_witness:
  "map keyword (select_all_checks_passed (fst (check_rows
       (crawl_all small_web [''/p1'', ''/p2'', ''/p3''])
       [plain_row, near_me_row, shoes_row, far_row]))) = [''Shoes'']
   \<and> map keyword (select_striking_distance stable (fst (check_rows
       (crawl_all small_web [''/p1'', ''/p2'', ''/p3''])
       [plain_row, near_me_row, shoes_row, far_row]))) = [''running shoes'']
   \<and> snd (check_rows (crawl_all small_web [''/p1'', ''/p2'', ''/p3''])
       [plain_row, near_me_row, shoes_row, far_row])
       = [(''/p2'', ''Cheap Shoes Near Me''), (''/p3'', ''shoes near me'')]
   \<and> mset (map base_row (select_all_checks_passed (fst (check_rows
         (crawl_all small_web [''/p1'', ''/p2'', ''/p3''])
         [plain_row, near_me_row, shoes_row, far_row]))))
     + mset (map base_row (select_striking_distance stable (fst (check_rows
         (crawl_all small_web [''/p1'', ''/p2'', ''/p3''])
         [plain_row, near_me_row, shoes_row, far_row]))))
     + mset (filter (\<lambda>r. \<not> crawled_ok (crawl_all small_web [''/p1'', ''/p2'', ''/p3'']) (url r))
         [plain_row, near_me_row, shoes_row, far_row])
     = mset [plain_row, near_me_row, shoes_row, far_row]"
proof -
  have e: "map keyword (select_all_checks_passed (fst (check_rows
       (crawl_all small_web [''/p1'', ''/p2'', ''/p3''])
       [plain_row, near_me_row, shoes_row, far_row]))) = [''Shoes'']
   \<and> map keyword (select_striking_distance stable (fst (check_rows
       (crawl_all small_web [''/p1'', ''/p2'', ''/p3''])
       [plain_row, near_me_row, shoes_row, far_row]))) = [''running shoes'']
   \<and> snd (check_rows (crawl_all small_web [''/p1'', ''/p2'', ''/p3''])
       [plain_row, near_me_row, shoes_row, far_row])
       = [(''/p2'', ''Cheap Shoes Near Me''), (''/p3'', ''shoes near me'')]"
    by code_simp
  note t = categorisation_partitions_filtered_rows
             [of "crawl_all small_web [''/p1'', ''/p2'', ''/p3'']"
                 "[plain_row, near_me_row, shoes_row, far_row]" stable]
  from e conjunct1 [OF t] show ?thesis
    by (simp only: simp_thms)
qed

section \<open>The report\<close>

lemma report_of_fields:
  "striking_distance (report_of cfg kind web as_completed removed filtered) =
     attach_opportunities kind (select_striking_distance kind (fst (check_rows
       (crawl (crawl_option cfg) web as_completed (unique_urls (max_urls cfg) filtered))
       filtered)))"
  "all_checks_passed (report_of cfg kind web as_completed removed filtered) =
     select_all_checks_passed (fst (check_rows
       (crawl (crawl_option cfg) web as_completed (unique_urls (max_urls cfg) filtered))
       filtered))"
  "urls_not_found (report_of cfg kind web as_completed removed filtered) =
     snd (check_rows
       (crawl (crawl_option cfg) web as_completed (unique_urls (max_urls cfg) filtered))
       filtered)"
  "blocklist_removed (report_of cfg kind web as_completed removed filtered) = removed"
  by (simp_all add: report_of_def analyse_def split_def Let_def)

text \<open>The handler returns a report exactly when the filters get past the blocklist,
  and then it is the report of what they return.\<close>

lemma generate_report_Some:
  "(generate_report cfg re kind web as_completed hi df = Some rep)
     = (\<exists>removed filtered.
          filter_keywords re (position_range cfg) (min_impressions cfg) (blocklist_input cfg)
            hi df = Some (removed, filtered)
          \<and> rep = report_of cfg kind web as_completed removed filtered)"
  by (auto simp: generate_report_def split: option.splits)

section \<open>The order of the striking-distance output\<close>

text \<open>
  C2, as the specification states it, fails: two rows of equal opportunity score
  leave the report in the order of their positions, not in the order in which the
  filtered frame held them, when the final sort keeps rows of equal score in the
  order in which they reach it (as a stable sort does, and the default kind on a
  frame of two rows). With the sample content, the row at position 12 comes first in
  the input and second in the output, both rows scoring 40.
\<close>

theorem tie_order_counterexample:
  "map keyword [trail_row, road_row] = [''trail shoes'', ''road shoes'']
   \<and> map_option (map keyword \<circ> striking_distance)
         (generate_report sample_settings literal_re stable no_web id True
            [trail_row, road_row])
       = Some [''road shoes'', ''trail shoes'']
   \<and> map_option (map opportunity_score \<circ> striking_distance)
         (generate_report sample_settings literal_re stable no_web id True
            [trail_row, road_row])
       = Some [Some 40, Some 40]"
  by code_simp

text \<open>
  C2, amended. Whenever the handler returns a report, its striking-distance output
  is sorted by opportunity score, highest first, and every row of it has a score.
  The order of rows of equal score is not fixed by the code and is not the filter
  order: the frame is sorted by position before it is scored, and the sort kind
  orders rows of equal key as it pleases.
\<close>

theorem striking_distance_sorted_by_score:
  assumes "generate_report cfg re kind web as_completed hi df = Some rep"
  shows "sorted_wrt (\<lambda>a b. score_value b \<le> score_value a) (striking_distance rep)
       \<and> (\<forall>r \<in> set (striking_distance rep). opportunity_score r \<noteq> None)"
proof -
  from assms obtain removed filtered where
    rep: "rep = report_of cfg kind web as_completed removed filtered"
    by (auto simp: generate_report_Some)
  let ?S = "select_striking_distance kind (fst (check_rows
       (crawl (crawl_option cfg) web as_completed (unique_urls (max_urls cfg) filtered))
       filtered))"
  let ?M = "merge_left ?S (calculate_striking_distance_opportunities ?S)"
  have e: "striking_distance rep = sort_values_desc kind opportunity_score ?M"
    by (simp only: rep report_of_fields attach_opportunities_eq)
  have 1: "sorted_wrt (\<lambda>a b. score_value b \<le> score_value a)
             (sort_values_desc kind opportunity_score ?M)"
    by (rule sort_values_desc_sorted [OF merged_scored])
  have "set (sort_values_desc kind opportunity_score ?M) = set ?M"
    by (rule mset_eq_setD [OF mset_sort_values_desc])
  then have 2: "\<forall>r \<in> set (sort_values_desc kind opportunity_score ?M).
                  opportunity_score r \<noteq> None"
    using merged_scored [of ?S] by simp
  show ?thesis
    unfolding e by (rule conjI [OF 1 2])
qed

theorem striking_distance_sorted_by_score_witness:
  "map_option (map keyword \<circ> striking_distance)
       (generate_report sample_settings literal_re stable no_web id True
          [trail_row, road_row, plain_row])
     = Some [''running shoes'', ''road shoes'', ''trail shoes'']
   \<and> map_option (map score_value \<circ> striking_distance)
       (generate_report sample_settings literal_re stable no_web id True
          [trail_row, road_row, plain_row])
     = Some [70, 40, 40]
   \<and> (\<exists>rep. generate_report sample_settings literal_re stable no_web id True
                [trail_row, road_row, plain_row] = Some rep
          \<and> sorted_wrt (\<lambda>a b. score_value b \<le> score_value a) (striking_distance rep))"
proof -
  have e: "map_option (map keyword \<circ> striking_distance)
       (generate_report sample_settings literal_re stable no_web id True
          [trail_row, road_row, plain_row])
     = Some [''running shoes'', ''road shoes'', ''trail shoes'']
   \<and> map_option (map score_value \<circ> striking_distance)
       (generate_report sample_settings literal_re stable no_web id True
          [trail_row, road_row, plain_row])
     = Some [70, 40, 40]"
    by code_simp
  then obtain rep where
    r: "generate_report sample_settings literal_re stable no_web id True
          [trail_row, road_row, plain_row] = Some rep"
    by auto
  from conjunct1 [OF striking_distance_sorted_by_score [OF r]] r
  have "\<exists>rep. generate_report sample_settings literal_re stable no_web id True
                [trail_row, road_row, plain_row] = Some rep
          \<and> sorted_wrt (\<lambda>a b. score_value b \<le> score_value a) (striking_distance rep)"
    by blast
  with e show ?thesis
    by (simp only: simp_thms)
qed

section \<open>Rows that share URL and keyword\<close>

text \<open>The merge yields, for every row of the striking-distance frame, as many rows
  as the frame has rows with that row's URL and keyword, whatever the sort kind.\<close>

lemma length_attach_opportunities:
  "length (attach_opportunities kind striking)
     = sum_list (map (\<lambda>l. length (partners striking l)) striking)"
proof -
  have "length (attach_opportunities kind striking)
          = size (mset (attach_opportunities kind striking))"
    by simp
  also have "\<dots> = length (merge_left striking
                              (calculate_striking_distance_opportunities striking))"
    by (simp only: attach_opportunities_mset size_mset)
  finally show ?thesis
    by (simp only: length_merged)
qed

text \<open>
  C9 does not hold of the code. The merge of line 463 joins on URL and keyword, so
  a row of the striking-distance frame is paired with the opportunity of every row
  that has the same URL and keyword. Two filtered rows with the same URL and
  keyword at positions 4 and 7 come out as four rows, the row at position 7 once with
  the score 70 of the row at position 4; and the twenty rows of the sample data of the
  application, where every pair of URL and keyword occurs four times, come out as
  eighty rows.
\<close>

theorem duplicate_keys_multiply_rows:
  "map_option (map position \<circ> striking_distance)
       (generate_report sample_settings literal_re stable no_web id True
          [plain_row, second_plain_row])
     = Some [4, 7, 4, 7]
   \<and> map_option (map opportunity_score \<circ> striking_distance)
       (generate_report sample_settings literal_re stable no_web id True
          [plain_row, second_plain_row])
     = Some [Some 70, Some 70, Some 60, Some 60]
   \<and> length sample_data = 20
   \<and> map_option (length \<circ> striking_distance)
       (generate_report sample_settings literal_re stable no_web id True sample_data)
     = Some 80"
  by code_simp

section \<open>The cap on the crawled URLs\<close>

lemma unique_set: "set (unique xs) = set xs"
  by (induction xs rule: unique.induct) auto

lemma unique_distinct: "distinct (unique xs)"
  by (induction xs rule: unique.induct) (auto simp: unique_set)

lemma unique_snoc: "unique (xs @ [x]) = (if x \<in> set xs then unique xs else unique xs @ [x])"
  by (induction xs rule: unique.induct) auto

lemma first_appearances_snoc:
  "first_appearances (xs @ [x])
     = (if x \<in> set xs then first_appearances xs else first_appearances xs @ [x])"
proof -
  let ?Q = "\<lambda>i. (xs @ [x]) ! i \<notin> set (take i (xs @ [x]))"
  let ?P = "\<lambda>i. xs ! i \<notin> set (take i xs)"
  have old: "filter ?Q [0..<length xs] = filter ?P [0..<length xs]"
    by (rule filter_cong [OF refl]) (simp add: nth_append)
  have vals: "map (\<lambda>i. (xs @ [x]) ! i) (filter ?P [0..<length xs])
                = map (\<lambda>i. xs ! i) (filter ?P [0..<length xs])"
    by (rule map_cong [OF refl]) (simp add: nth_append)
  have new: "filter ?Q [length xs] = (if x \<in> set xs then [] else [length xs])"
    by simp
  have "filter ?Q [0..<length (xs @ [x])] = filter ?Q [0..<length xs] @ filter ?Q [length xs]"
    by simp
  then have idx: "filter ?Q [0..<length (xs @ [x])]
                    = filter ?P [0..<length xs] @ (if x \<in> set xs then [] else [length xs])"
    by (simp only: old new)
  have "first_appearances (xs @ [x])
          = map (\<lambda>i. (xs @ [x]) ! i) (filter ?Q [0..<length (xs @ [x])])"
    by (simp only: first_appearances_def)
  also have "\<dots> = map (\<lambda>i. (xs @ [x]) ! i) (filter ?P [0..<length xs])
                     @ map (\<lambda>i. (xs @ [x]) ! i) (if x \<in> set xs then [] else [length xs])"
    by (simp only: idx map_append)
  also have "\<dots> = first_appearances xs @ (if x \<in> set xs then [] else [x])"
    by (simp add: vals first_appearances_def)
  finally show ?thesis
    by simp
qed

text \<open>The distinct values that \<^verbatim>\<open>unique()\<close> returns are the values in order of
  first appearance.\<close>

lemma unique_first_appearances: "unique xs = first_appearances xs"
proof (induction xs rule: rev_induct)
  case Nil
  then show ?case by (simp add: first_appearances_def)
next
  case (snoc x xs)
  then show ?case
    by (simp only: unique_snoc first_appearances_snoc)
qed

lemma unique_urls_first_appearances:
  "unique_urls n df = take n (first_appearances (map url df))"
  by (simp add: unique_urls_def unique_first_appearances)

lemma length_unique_urls:
  "length (unique_urls n df) = min n (card (url ` set df))"
proof -
  have "length (unique (map url df)) = card (set (unique (map url df)))"
    by (rule distinct_card [symmetric, OF unique_distinct])
  then show ?thesis
    by (simp add: unique_urls_def unique_set min.commute)
qed

lemma sample_crawl_foldl:
  "foldl (\<lambda>crawl_results u. crawl_results(u \<mapsto> sample_page u)) m us
     = (\<lambda>u. if u \<in> set us then Some (sample_page u) else m u)"
proof (induction us arbitrary: m)
  case Nil
  then show ?case by simp
next
  case (Cons a us)
  have "foldl (\<lambda>crawl_results u. crawl_results(u \<mapsto> sample_page u)) m (a # us)
          = foldl (\<lambda>crawl_results u. crawl_results(u \<mapsto> sample_page u))
              (m(a \<mapsto> sample_page a)) us"
    by simp
  also have "\<dots> = (\<lambda>u. if u \<in> set us then Some (sample_page u)
                        else (m(a \<mapsto> sample_page a)) u)"
    by (rule Cons.IH)
  also have "\<dots> = (\<lambda>u. if u \<in> set (a # us) then Some (sample_page u) else m u)"
    by (auto simp: fun_eq_iff)
  finally show ?case .
qed

lemma dom_crawl:
  assumes "mset (as_completed urls) = mset urls"
  shows "dom (crawl option web as_completed urls) = set urls"
proof (cases "option = Use_sample_content")
  case True
  then show ?thesis
    by (auto simp: crawl_def sample_crawl_def sample_crawl_foldl dom_def)
next
  case False
  from assms have "set (as_completed urls) = set urls" by (rule mset_eq_setD)
  with False show ?thesis
    by (auto simp: crawl_def crawl_all_lookup dom_def)
qed

lemma crawled_ok_dom: "crawled_ok cr u \<Longrightarrow> u \<in> dom cr"
  by (auto simp: crawled_ok_def split: option.splits)

lemma count_map: "count (mset (map f xs)) y = length (filter (\<lambda>x. f x = y) xs)"
  by (induction xs) auto

lemma not_found_count:
  assumes "\<not> crawled_ok cr (url row)"
  shows "count (mset (map (\<lambda>r. (url r, keyword r)) (filter (\<lambda>r. \<not> crawled_ok cr (url r)) df)))
           (url row, keyword row)
         = count (mset (map (\<lambda>r. (url r, keyword r)) df)) (url row, keyword row)"
proof -
  have "filter (\<lambda>r. (url r, keyword r) = (url row, keyword row))
          (filter (\<lambda>r. \<not> crawled_ok cr (url r)) df)
        = filter (\<lambda>r. (url r, keyword r) = (url row, keyword row)) df"
    using assms by (auto simp: filter_filter intro: filter_cong)
  then show ?thesis
    by (simp only: count_map)
qed

text \<open>
  C10. Let the filters return the frame \<open>filtered\<close>. The handler then returns a
  report, whatever the number of URLs. The URLs it submits are the first
  \<^verbatim>\<open>max_urls\<close> of the distinct URLs of the frame taken in order of first
  appearance: they are distinct, their number is the smaller of \<^verbatim>\<open>max_urls\<close> and
  the number of distinct URLs of the frame, and, the futures finishing in any order,
  they are the keys of the crawl map. A row of the frame whose URL is not among them
  is in the not-found list with its URL and keyword, as often as the frame has rows
  with that URL and keyword, and no row of the other two buckets has its URL.
\<close>

theorem urls_beyond_cap_not_found:
  assumes filtered: "filter_keywords re (position_range cfg) (min_impressions cfg)
                       (blocklist_input cfg) hi df = Some (removed, filtered)"
    and fin: "mset (as_completed (take (max_urls cfg) (first_appearances (map url filtered))))
               = mset (take (max_urls cfg) (first_appearances (map url filtered)))"
    and row: "row \<in> set filtered"
    and beyond: "url row \<notin> set (take (max_urls cfg) (first_appearances (map url filtered)))"
    and rep: "rep = report_of cfg kind web as_completed removed filtered"
  shows "generate_report cfg re kind web as_completed hi df = Some rep
       \<and> unique_urls (max_urls cfg) filtered
           = take (max_urls cfg) (first_appearances (map url filtered))
       \<and> distinct (unique_urls (max_urls cfg) filtered)
       \<and> length (unique_urls (max_urls cfg) filtered)
           = min (max_urls cfg) (card (url ` set filtered))
       \<and> dom (crawl (crawl_option cfg) web as_completed (unique_urls (max_urls cfg) filtered))
           = set (take (max_urls cfg) (first_appearances (map url filtered)))
       \<and> (url row, keyword row) \<in> set (urls_not_found rep)
       \<and> count (mset (urls_not_found rep)) (url row, keyword row)
           = count (mset (map (\<lambda>r. (url r, keyword r)) filtered)) (url row, keyword row)
       \<and> (\<forall>r \<in> set (striking_distance rep). url r \<noteq> url row)
       \<and> (\<forall>r \<in> set (all_checks_passed rep). url r \<noteq> url row)"
proof -
  let ?us = "unique_urls (max_urls cfg) filtered"
  let ?cr = "crawl (crawl_option cfg) web as_completed ?us"
  have 0: "generate_report cfg re kind web as_completed hi df = Some rep"
    using filtered rep by (simp add: generate_report_Some)
  have u: "?us = take (max_urls cfg) (first_appearances (map url filtered))"
    by (rule unique_urls_first_appearances)
  have di: "distinct ?us"
    by (simp add: unique_urls_def unique_distinct)
  have le: "length ?us = min (max_urls cfg) (card (url ` set filtered))"
    by (rule length_unique_urls)
  from fin have "mset (as_completed ?us) = mset ?us"
    by (simp only: u)
  then have "dom ?cr = set ?us"
    by (rule dom_crawl)
  then have d: "dom ?cr = set (take (max_urls cfg) (first_appearances (map url filtered)))"
    by (simp only: u)
  with beyond have nok: "\<not> crawled_ok ?cr (url row)"
    using crawled_ok_dom by blast
  have nf: "urls_not_found rep
      = map (\<lambda>r. (url r, keyword r)) (filter (\<lambda>r. \<not> crawled_ok ?cr (url r)) filtered)"
    by (simp add: rep report_of_fields check_rows_eq)
  have 2: "(url row, keyword row) \<in> set (urls_not_found rep)"
    using row nok by (auto simp: nf)
  have 3: "count (mset (urls_not_found rep)) (url row, keyword row)
           = count (mset (map (\<lambda>r. (url r, keyword r)) filtered)) (url row, keyword row)"
    unfolding nf by (rule not_found_count [OF nok])
  let ?R = "fst (check_rows ?cr filtered)"
  have ok: "\<forall>m \<in> set ?R. crawled_ok ?cr (url m)"
    using results_member [of _ ?cr filtered] by (simp add: check_rows_eq)
  have 5: "\<forall>r \<in> set (all_checks_passed rep). url r \<noteq> url row"
    using ok nok by (auto simp: rep report_of_fields select_all_checks_passed_eq)
  have "\<forall>r \<in> set (striking_distance rep).
          \<exists>l \<in> set (select_striking_distance kind ?R). url r = url l"
    by (auto simp: rep report_of_fields attach_opportunities_eq
         mset_eq_setD [OF mset_sort_values_desc] with_opportunity_def dest!: merged_row)
  then have 4: "\<forall>r \<in> set (striking_distance rep). url r \<noteq> url row"
    using ok nok unfolding select_striking_distance_set
    by (metis (mono_tags, lifting) mem_Collect_eq)
  show ?thesis
    by (rule conjI [OF 0 conjI [OF u conjI [OF di conjI [OF le conjI [OF d
          conjI [OF 2 conjI [OF 3 conjI [OF 4 5]]]]]]]])
qed

theorem urls_beyond_cap_not_found_witness:
  "filter_keywords literal_re (3, 20) 10 [] True
       [plain_row, second_plain_row, near_me_row, third_row]
     = Some ([], [plain_row, second_plain_row, near_me_row, third_row])
   \<and> map url [plain_row, second_plain_row, near_me_row, third_row]
       = [''/p1'', ''/p1'', ''/p2'', ''/p3'']
   \<and> take 2 (first_appearances (map url [plain_row, second_plain_row, near_me_row, third_row]))
       = [''/p1'', ''/p2'']
   \<and> map_option urls_not_found
        (generate_report (sample_settings\<lparr>max_urls := 2\<rparr>) literal_re stable no_web id True
           [plain_row, second_plain_row, near_me_row, third_row])
       = Some [(''/p3'', ''trail shoes'')]
   \<and> unique_urls 2 [plain_row, second_plain_row, near_me_row, third_row] = [''/p1'', ''/p2'']"
proof -
  let ?cfg = "sample_settings\<lparr>max_urls := 2\<rparr>"
  let ?df = "[plain_row, second_plain_row, near_me_row, third_row]"
  have f0: "filter_keywords literal_re (3, 20) 10 [] True ?df = Some ([], ?df)"
    by code_simp
  have c: "position_range ?cfg = (3, 20)" "min_impressions ?cfg = 10"
      "blocklist_input ?cfg = []" "max_urls ?cfg = 2"
    by (simp_all add: sample_settings_def)
  have f: "filter_keywords literal_re (position_range ?cfg) (min_impressions ?cfg)
             (blocklist_input ?cfg) True ?df = Some ([], ?df)"
    unfolding c by (rule f0)
  have m: "map url ?df = [''/p1'', ''/p1'', ''/p2'', ''/p3'']"
    by code_simp
  have u: "take 2 (first_appearances (map url ?df)) = [''/p1'', ''/p2'']"
    by code_simp
  have a: "mset (id (take (max_urls ?cfg) (first_appearances (map url ?df))))
             = mset (take (max_urls ?cfg) (first_appearances (map url ?df)))"
    by simp
  have r: "third_row \<in> set ?df"
    by simp
  have n: "url third_row = ''/p3''" "keyword third_row = ''trail shoes''"
    by (simp_all add: third_row_def)
  have b: "url third_row \<notin> set (take (max_urls ?cfg) (first_appearances (map url ?df)))"
    unfolding c u n by simp
  note t = urls_beyond_cap_not_found
             [where as_completed = id and cfg = "?cfg" and filtered = "?df" and re = literal_re
                and hi = True and df = "?df" and web = no_web and row = third_row
                and kind = stable and removed = "[]", OF f a r b refl]
  have nf: "map_option urls_not_found (generate_report ?cfg literal_re stable no_web id True ?df)
          = Some [(''/p3'', ''trail shoes'')]"
    by code_simp
  from conjunct1 [OF conjunct2 [OF t]] u c
  have "unique_urls 2 ?df = [''/p1'', ''/p2'']"
    by simp
  with f0 m u nf show ?thesis
    by (simp only: simp_thms)
qed

end
